theory Spec2Isabelle
  imports Main "HOL-Library.AList"
begin

section \<open>Data model of the task scheduler\<close>

text \<open>
  The embedding follows \<^verbatim>\<open>src/coordination/scheduler.ts\<close>. The logger is an injected
  collaborator that the scheduler only writes to, so its calls are left out. Every
  \<^verbatim>\<open>new Date()\<close> reads the field \<open>now\<close> of the state; \<open>Tick\<close> advances it between
  operations. An operation that is declared \<^verbatim>\<open>async\<close> is modelled as awaited by
  its caller before the next operation begins.
\<close>

datatype TaskStatus = Pending | Queued | Assigned | Running | Completed | Failed | Cancelled

text \<open>The \<^verbatim>\<open>Error\<close> objects handed to \<^verbatim>\<open>failTask\<close>.\<close>

datatype Failure = Error string | TaskTimeoutError string nat

text \<open>
  The fields of \<^verbatim>\<open>Task\<close> that the scheduler reads or writes (the declaration in
  \<^verbatim>\<open>utils/types.ts\<close> has further payload fields that the scheduler only copies).
\<close>

record Task =
  id' :: string
  dependencies :: "string list"
  status :: TaskStatus
  assignedAgent :: "string option"
  output' :: "string option"
  error :: "Failure option"
  startedAt :: "nat option"
  completedAt :: "nat option"

record ScheduledTask =
  task :: Task
  agentId :: string
  attempts :: nat
  lastAttempt :: "nat option"
  timeout :: "nat option"

record CoordinationConfig =
  maxRetries :: nat
  retryDelay :: nat
  resourceTimeout :: nat

text \<open>What the scheduler throws.\<close>

datatype SchedulerError = TaskDependencyError string "string list" | TaskError string

text \<open>What the scheduler emits on the event bus.\<close>

datatype Event = TASK_STARTED string string | TASK_CANCELLED string string | TASK_CREATED Task

text \<open>
  The callbacks the scheduler hands to \<^verbatim>\<open>setTimeout\<close> and \<^verbatim>\<open>setInterval\<close>:
  the retry of \<^verbatim>\<open>failTask\<close>, the execution timeout of \<^verbatim>\<open>startTask\<close>, and the
  periodic cleanup of \<^verbatim>\<open>initialize\<close>.
\<close>

datatype Callback = StartTaskCb string | FailTaskCb string nat | CleanupCb

text \<open>
  The scheduler. A JavaScript \<^verbatim>\<open>Map\<close> is an association list in insertion order
  and a \<^verbatim>\<open>Set\<close> a duplicate-free list in insertion order. \<open>timers\<close> holds the pending
  timers as (handle, callback, delay in ms as handed to \<^verbatim>\<open>setTimeout\<close>), \<open>nextHandle\<close> the
  next fresh handle; which pending timer fires next is left open.
  \<open>emitted\<close> is what the event bus received, oldest first. A \<^verbatim>\<open>ScheduledTask\<close>
  is referenced by its entry of \<open>tasks\<close> only; when the entry is deleted or overwritten,
  the object is appended to \<open>dropped\<close> with the fields the code last wrote to it.
\<close>

record Scheduler =
  tasks :: "(string \<times> ScheduledTask) list"
  agentTasks :: "(string \<times> string list) list"
  taskDependencies :: "(string \<times> string list) list"
  completedTasks :: "string list"
  config :: CoordinationConfig
  emitted :: "Event list"
  timers :: "(nat \<times> Callback \<times> nat) list"
  nextHandle :: nat
  now :: nat
  dropped :: "ScheduledTask list"

definition newScheduler :: "CoordinationConfig \<Rightarrow> Scheduler" where
  "newScheduler cfg =
     \<lparr>tasks = [], agentTasks = [], taskDependencies = [], completedTasks = [],
      config = cfg, emitted = [], timers = [], nextHandle = 0, now = 0, dropped = []\<rparr>"

subsection \<open>Sets, maps and timers\<close>

text \<open>\<^verbatim>\<open>Set.add\<close>: a new element goes last, a present one keeps its place.\<close>

definition set_add :: "'a list \<Rightarrow> 'a \<Rightarrow> 'a list" where
  "set_add xs x = (if x \<in> set xs then xs else xs @ [x])"

text \<open>
  The pattern \<^verbatim>\<open>let set = m.get(k); if (!set) { set = new Set(); m.set(k, set) }; set.add(v)\<close>.
\<close>

definition index_add :: "(string \<times> string list) list \<Rightarrow> string \<Rightarrow> string \<Rightarrow> (string \<times> string list) list" where
  "index_add m k v =
     (case map_of m k of
        None \<Rightarrow> AList.update k [v] m
      | Some xs \<Rightarrow> AList.update k (set_add xs v) m)"

text \<open>\<^verbatim>\<open>m.get(k)?.delete(v)\<close>.\<close>

definition index_remove :: "(string \<times> string list) list \<Rightarrow> string \<Rightarrow> string \<Rightarrow> (string \<times> string list) list" where
  "index_remove m k v =
     (case map_of m k of
        None \<Rightarrow> m
      | Some xs \<Rightarrow> AList.update k (removeAll v xs) m)"

definition setTimeout :: "Callback \<Rightarrow> nat \<Rightarrow> Scheduler \<Rightarrow> Scheduler" where
  "setTimeout cb ms s =
     s\<lparr>timers := timers s @ [(nextHandle s, cb, ms)], nextHandle := Suc (nextHandle s)\<rparr>"

definition clearTimeout :: "nat \<Rightarrow> Scheduler \<Rightarrow> Scheduler" where
  "clearTimeout h s = s\<lparr>timers := filter (\<lambda>t. fst t \<noteq> h) (timers s)\<rparr>"

text \<open>\<^verbatim>\<open>if (scheduled.timeout) { clearTimeout(scheduled.timeout) }\<close>.\<close>

definition clearTaskTimeout :: "ScheduledTask \<Rightarrow> Scheduler \<Rightarrow> Scheduler" where
  "clearTaskTimeout scheduled s =
     (case timeout scheduled of None \<Rightarrow> s | Some h \<Rightarrow> clearTimeout h s)"

subsection \<open>Starting and assigning\<close>

definition startTask :: "string \<Rightarrow> Scheduler \<Rightarrow> Scheduler" where
  "startTask taskId s =
     (case map_of (tasks s) taskId of
        None \<Rightarrow> s
      | Some scheduled \<Rightarrow>
          let timeoutMs = resourceTimeout (config s);
              scheduled' = scheduled
                \<lparr>task := (task scheduled)\<lparr>status := Running, startedAt := Some (now s)\<rparr>,
                 timeout := Some (nextHandle s)\<rparr>
          in setTimeout (FailTaskCb taskId timeoutMs) timeoutMs
               (s\<lparr>tasks := AList.update taskId scheduled' (tasks s),
                  emitted := emitted s @ [TASK_STARTED taskId (agentId scheduled)]\<rparr>))"

definition canStartTask :: "Scheduler \<Rightarrow> Task \<Rightarrow> bool" where
  "canStartTask s t = list_all (\<lambda>depId. depId \<in> set (completedTasks s)) (dependencies t)"

definition registerDependency :: "string \<Rightarrow> string \<Rightarrow> Scheduler \<Rightarrow> Scheduler" where
  "registerDependency taskId depId s =
     s\<lparr>taskDependencies := index_add (taskDependencies s) depId taskId\<rparr>"

definition assignTask :: "Task \<Rightarrow> string \<Rightarrow> Scheduler \<Rightarrow> SchedulerError option \<times> Scheduler" where
  "assignTask t agent s =
     (let unmetDependencies = filter (\<lambda>depId. depId \<notin> set (completedTasks s)) (dependencies t)
      in if dependencies t \<noteq> [] \<and> unmetDependencies \<noteq> []
         then (Some (TaskDependencyError (id' t) unmetDependencies), s)
         else
           let scheduledTask =
                 \<lparr>task = t\<lparr>status := Assigned, assignedAgent := Some agent\<rparr>,
                  agentId = agent, attempts = 0, lastAttempt = None, timeout = None\<rparr>;
               s1 = s\<lparr>tasks := AList.update (id' t) scheduledTask (tasks s),
                      dropped := dropped s @
                        (case map_of (tasks s) (id' t) of None \<Rightarrow> [] | Some old \<Rightarrow> [old])\<rparr>;
               s2 = s1\<lparr>agentTasks := index_add (agentTasks s1) agent (id' t)\<rparr>;
               s3 = fold (registerDependency (id' t)) (dependencies t) s2
           in (None, startTask (id' t) s3))"

subsection \<open>Cancellation\<close>

text \<open>The part of \<^verbatim>\<open>cancelTask\<close> before the cascade, for an active task.\<close>

definition cancelActive :: "string \<Rightarrow> ScheduledTask \<Rightarrow> string \<Rightarrow> Scheduler \<Rightarrow> Scheduler" where
  "cancelActive taskId scheduled reason s =
     (let s1 = clearTaskTimeout scheduled s;
          scheduled' = scheduled
            \<lparr>task := (task scheduled)\<lparr>status := Cancelled, completedAt := Some (now s1)\<rparr>\<rparr>
      in s1\<lparr>emitted := emitted s1 @ [TASK_CANCELLED taskId reason],
            tasks := AList.delete taskId (tasks s1),
            agentTasks := index_remove (agentTasks s1) (agentId scheduled) taskId,
            dropped := dropped s1 @ [scheduled']\<rparr>)"

function cancelTask :: "string \<Rightarrow> string \<Rightarrow> Scheduler \<Rightarrow> Scheduler"
  and cancelDependentTasks :: "string \<Rightarrow> string \<Rightarrow> Scheduler \<Rightarrow> Scheduler"
  and cancelEach :: "string list \<Rightarrow> string \<Rightarrow> Scheduler \<Rightarrow> Scheduler" where
  "cancelTask taskId reason s =
     (case map_of (tasks s) taskId of
        None \<Rightarrow> s
      | Some scheduled \<Rightarrow>
          cancelDependentTasks taskId ''Parent task cancelled''
            (cancelActive taskId scheduled reason s))"
| "cancelDependentTasks taskId reason s =
     (case map_of (taskDependencies s) taskId of
        None \<Rightarrow> s
      | Some dependents \<Rightarrow> cancelEach dependents reason s)"
| "cancelEach [] reason s = s"
| "cancelEach (dependentId # rest) reason s =
     cancelEach rest reason (cancelTask dependentId reason s)"
  by pat_completeness auto

text \<open>
  The cascade ends on every dependency graph, cyclic ones included: a call that goes on
  has first deleted its task from \<open>tasks\<close>, and no call of the cascade adds one.
\<close>

lemma length_delete_less:
  "map_of al k = Some v \<Longrightarrow> length (AList.delete k al) < length al"
  by (induction al) (auto simp: less_Suc_eq_le AList.delete_eq split: if_splits)

lemma tasks_cancelActive:
  "tasks (cancelActive t sch r s) = AList.delete t (tasks s)"
  by (simp add: cancelActive_def Let_def clearTaskTimeout_def clearTimeout_def split: option.splits)

lemma cancel_dom_length:
  "cancelTask_cancelDependentTasks_cancelEach_dom (Inl (t, r, s)) \<Longrightarrow>
     length (tasks (cancelTask t r s)) \<le> length (tasks s)"
  "cancelTask_cancelDependentTasks_cancelEach_dom (Inr (Inl (t, r, s))) \<Longrightarrow>
     length (tasks (cancelDependentTasks t r s)) \<le> length (tasks s)"
  "cancelTask_cancelDependentTasks_cancelEach_dom (Inr (Inr (ds, r, s))) \<Longrightarrow>
     length (tasks (cancelEach ds r s)) \<le> length (tasks s)"
proof (induction t r s and t r s and ds r s
    rule: cancelTask_cancelDependentTasks_cancelEach.pinduct)
  case (1 taskId reason s)
  show ?case
  proof (cases "map_of (tasks s) taskId")
    case None
    with 1 show ?thesis by (simp add: cancelTask.psimps)
  next
    case (Some sch)
    with 1 have "length (tasks (cancelTask taskId reason s))
        \<le> length (AList.delete taskId (tasks s))"
      by (simp add: cancelTask.psimps tasks_cancelActive)
    with length_delete_less[OF Some] show ?thesis by simp
  qed
next
  case (2 taskId reason s)
  then show ?case by (simp add: cancelDependentTasks.psimps split: option.splits)
next
  case (3 reason s)
  then show ?case by (simp add: cancelEach.psimps)
next
  case (4 d rest reason s)
  then show ?case by (simp add: cancelEach.psimps)
qed

termination cancelTask
proof (relation "measures [
    (\<lambda>x. case x of Inl (t, r, s) \<Rightarrow> length (tasks s)
                  | Inr (Inl (t, r, s)) \<Rightarrow> length (tasks s)
                  | Inr (Inr (ds, r, s)) \<Rightarrow> length (tasks s)),
    (\<lambda>x. case x of Inl (t, r, s) \<Rightarrow> 0
                  | Inr (Inl (t, r, s)) \<Rightarrow>
                      (case map_of (taskDependencies s) t of
                         None \<Rightarrow> 2 | Some ds \<Rightarrow> length ds + 2)
                  | Inr (Inr (ds, r, s)) \<Rightarrow> length ds + 1)]", goal_cases)
  case 1
  then show ?case by simp
next
  case (2 taskId reason s sch)
  then show ?case by (simp add: length_delete_less tasks_cancelActive)
next
  case (3 taskId reason s ds)
  then show ?case by simp
next
  case (4 d rest reason s)
  then show ?case by simp
next
  case (5 d rest reason s)
  then show ?case using cancel_dom_length(1)[OF 5] by (auto simp: le_less)
qed

declare cancelTask.simps [simp del] cancelDependentTasks.simps [simp del]

subsection \<open>Cancellations started together\<close>

text \<open>
  \<^verbatim>\<open>cancelAgentTasks\<close> and \<^verbatim>\<open>shutdown\<close> call \<^verbatim>\<open>cancelTask\<close> once per task id and
  wait for all the calls with \<^verbatim>\<open>Promise.all\<close>. \<^verbatim>\<open>cancelTask\<close> and
  \<^verbatim>\<open>cancelDependentTasks\<close> are \<^verbatim>\<open>async\<close>: a call runs until its first \<^verbatim>\<open>await\<close> and is
  resumed from the microtask queue, one turn after the awaited promise has settled
  (ECMAScript 2019 and later). So the calls take turns, and a task that two of them reach is
  cancelled by the one that gets there first, with that one's reason.

  A suspended call is the stack of its frames, innermost first: \<open>AfterCascade\<close> is a
  \<^verbatim>\<open>cancelTask\<close> waiting at
  \<^verbatim>\<open>await this.cancelDependentTasks(taskId, "Parent task cancelled")\<close>, and
  \<open>Loop rest reason\<close> is the loop of \<^verbatim>\<open>cancelDependentTasks\<close> waiting at
  \<^verbatim>\<open>await this.cancelTask(dependentId, reason)\<close> with the dependents \<open>rest\<close> still
  to visit.
\<close>

datatype Frame = AfterCascade | Loop "string list" string

text \<open>
  \<open>callCancel\<close> is a call of \<^verbatim>\<open>cancelTask\<close> up to the point where it is suspended, and
  \<open>callLoop\<close> the loop of \<^verbatim>\<open>cancelDependentTasks\<close> up to that point: the call goes down
  through the first dependents until one of the nested calls returns at once (an inactive
  task, a task without dependents); every \<^verbatim>\<open>await\<close> passed on the way leaves a frame. A
  call that returns without an \<^verbatim>\<open>await\<close> leaves no frame.
\<close>

function callCancel :: "string \<Rightarrow> string \<Rightarrow> Scheduler \<Rightarrow> Frame list \<times> Scheduler"
  and callLoop :: "string list \<Rightarrow> string \<Rightarrow> Scheduler \<Rightarrow> Frame list \<times> Scheduler" where
  "callCancel taskId reason s =
     (case map_of (tasks s) taskId of
        None \<Rightarrow> ([], s)
      | Some scheduled \<Rightarrow>
          (case (case map_of (taskDependencies s) taskId of
                   None \<Rightarrow> ([], cancelActive taskId scheduled reason s)
                 | Some dependents \<Rightarrow>
                     callLoop dependents ''Parent task cancelled''
                       (cancelActive taskId scheduled reason s)) of
             (inner, s2) \<Rightarrow> (inner @ [AfterCascade], s2)))"
| "callLoop [] reason s = ([], s)"
| "callLoop (dependentId # rest) reason s =
     (case callCancel dependentId reason s of
        (inner, s1) \<Rightarrow> (inner @ [Loop rest reason], s1))"
  by pat_completeness auto
termination
  by (relation "measures [
        (\<lambda>x. case x of Inl (t, r, s) \<Rightarrow> length (tasks s) | Inr (ds, r, s) \<Rightarrow> length (tasks s)),
        (\<lambda>x. case x of Inl (t, r, s) \<Rightarrow> 0 | Inr (ds, r, s) \<Rightarrow> 1)]")
     (auto simp: tasks_cancelActive length_delete_less)

declare callCancel.simps [simp del]

text \<open>
  One turn of a suspended call. The innermost frame goes on: a \<^verbatim>\<open>cancelTask\<close> that waited
  for its cascade returns; a loop visits its next dependent, or returns when none is left.
  The frames below wait for that return, and the first of them is resumed one turn later.
\<close>

fun resume :: "Frame list \<Rightarrow> Scheduler \<Rightarrow> Frame list \<times> Scheduler" where
  "resume [] s = ([], s)"
| "resume (AfterCascade # outer) s = (outer, s)"
| "resume (Loop dependents reason # outer) s =
     (case callLoop dependents reason s of (inner, s1) \<Rightarrow> (inner @ outer, s1))"

fun frameWeight :: "Frame \<Rightarrow> nat" where
  "frameWeight AfterCascade = 1"
| "frameWeight (Loop dependents reason) = Suc (length dependents)"

definition queueWeight :: "Frame list list \<Rightarrow> nat" where
  "queueWeight q = sum_list (map (\<lambda>c. Suc (sum_list (map frameWeight c))) q)"

lemma call_length:
  "length (tasks (snd (callCancel t r s))) \<le> length (tasks s)"
  "length (tasks (snd (callLoop ds r s))) \<le> length (tasks s)"
proof (induction t r s and ds r s rule: callCancel_callLoop.induct)
  case (1 taskId reason s)
  show ?case
  proof (cases "map_of (tasks s) taskId")
    case None
    then show ?thesis by (simp add: callCancel.simps)
  next
    case (Some sch)
    have d: "length (tasks (cancelActive taskId sch reason s)) < length (tasks s)"
      by (simp add: tasks_cancelActive length_delete_less[OF Some])
    show ?thesis
    proof (cases "map_of (taskDependencies s) taskId")
      case None
      with Some d show ?thesis by (simp add: callCancel.simps)
    next
      case ds: (Some dependents)
      from 1[OF Some ds] d Some ds show ?thesis
        by (simp add: callCancel.simps split_beta)
    qed
  qed
next
  case (2 reason s)
  show ?case by simp
next
  case (3 d rest reason s)
  then show ?case by (simp add: split_beta)
qed

lemma callLoop_progress:
  "length (tasks (snd (callLoop ds r s))) < length (tasks s)
   \<or> snd (callLoop ds r s) = s
     \<and> sum_list (map frameWeight (fst (callLoop ds r s))) < Suc (length ds)"
proof (cases ds)
  case Nil
  then show ?thesis by simp
next
  case (Cons d rest)
  show ?thesis
  proof (cases "map_of (tasks s) d")
    case None
    with Cons show ?thesis by (simp add: callCancel.simps)
  next
    case (Some sch)
    have d: "length (tasks (cancelActive d sch r s)) < length (tasks s)"
      by (simp add: tasks_cancelActive length_delete_less[OF Some])
    have "length (tasks (snd (callCancel d r s))) < length (tasks s)"
    proof (cases "map_of (taskDependencies s) d")
      case None
      with Some d show ?thesis by (simp add: callCancel.simps)
    next
      case ds: (Some dependents)
      from call_length(2)[of dependents "''Parent task cancelled''" "cancelActive d sch r s"] d Some ds
      show ?thesis by (simp add: callCancel.simps split_beta)
    qed
    with Cons show ?thesis by (simp add: split_beta)
  qed
qed

text \<open>
  The microtask queue holds the suspended calls, first in, first out: a call that has not
  returned after its turn goes to the back. Every turn either cancels a task or takes one
  step of a loop or a return, so the queue runs empty.
\<close>

function runQueue :: "Frame list list \<Rightarrow> Scheduler \<Rightarrow> Scheduler" where
  "runQueue [] s = s"
| "runQueue (c # q) s =
     (case resume c s of
        (c', s') \<Rightarrow> runQueue (if c' = [] then q else q @ [c']) s')"
  by pat_completeness auto
termination
proof (relation "measures [(\<lambda>(q, s). length (tasks s)), (\<lambda>(q, s). queueWeight q)]", goal_cases)
  case 1
  show ?case by simp
next
  case (2 c q s c' s')
  then have r: "resume c s = (c', s')" by simp
  show ?case
  proof (cases c)
    case Nil
    with r show ?thesis by (auto simp: queueWeight_def)
  next
    case (Cons f outer)
    show ?thesis
    proof (cases f)
      case AfterCascade
      with Cons r show ?thesis by (auto simp: queueWeight_def)
    next
      case (Loop ds reason)
      from Loop Cons r have c': "c' = fst (callLoop ds reason s) @ outer"
        and s': "s' = snd (callLoop ds reason s)"
        by (auto split: prod.splits)
      from callLoop_progress[of ds reason s] show ?thesis
      proof
        assume "length (tasks (snd (callLoop ds reason s))) < length (tasks s)"
        then show ?thesis by (simp add: s')
      next
        assume "snd (callLoop ds reason s) = s
          \<and> sum_list (map frameWeight (fst (callLoop ds reason s))) < Suc (length ds)"
        with c' s' Cons Loop show ?thesis by (auto simp: queueWeight_def)
      qed
    qed
  qed
qed

text \<open>
  \<^verbatim>\<open>Promise.all(taskIds.map(id => this.cancelTask(id, reason)))\<close>: the calls are made in
  the order of the ids, each up to its suspension; then the queue runs until every call has
  returned.
\<close>

fun startAll :: "string list \<Rightarrow> string \<Rightarrow> Frame list list \<Rightarrow> Scheduler
    \<Rightarrow> Frame list list \<times> Scheduler" where
  "startAll [] reason q s = (q, s)"
| "startAll (taskId # rest) reason q s =
     (case callCancel taskId reason s of
        (c, s1) \<Rightarrow> startAll rest reason (if c = [] then q else q @ [c]) s1)"

definition cancelAll :: "string list \<Rightarrow> string \<Rightarrow> Scheduler \<Rightarrow> Scheduler" where
  "cancelAll taskIds reason s =
     (case startAll taskIds reason [] s of (q, s1) \<Rightarrow> runQueue q s1)"

definition cancelAgentTasks :: "string \<Rightarrow> Scheduler \<Rightarrow> Scheduler" where
  "cancelAgentTasks agent s =
     (case map_of (agentTasks s) agent of
        None \<Rightarrow> s
      | Some taskIds \<Rightarrow>
          let s1 = cancelAll taskIds ''Agent terminated'' s
          in s1\<lparr>agentTasks := AList.delete agent (agentTasks s1)\<rparr>)"

definition shutdown :: "Scheduler \<Rightarrow> Scheduler" where
  "shutdown s =
     (let taskIds = map fst (tasks s);
          s1 = cancelAll taskIds ''Scheduler shutdown'' s
      in s1\<lparr>tasks := [], agentTasks := [], taskDependencies := [], completedTasks := []\<rparr>)"

subsection \<open>Completion and failure\<close>

text \<open>The body of the loop over the dependents in \<^verbatim>\<open>completeTask\<close>.\<close>

definition startIfReady :: "string \<Rightarrow> Scheduler \<Rightarrow> Scheduler" where
  "startIfReady dependentId s =
     (case map_of (tasks s) dependentId of
        None \<Rightarrow> s
      | Some dependent \<Rightarrow>
          if canStartTask s (task dependent) then startTask dependentId s else s)"

definition completeTask :: "string \<Rightarrow> string \<Rightarrow> Scheduler \<Rightarrow> SchedulerError option \<times> Scheduler" where
  "completeTask taskId result s =
     (case map_of (tasks s) taskId of
        None \<Rightarrow> (Some (TaskError (''Task not found: '' @ taskId)), s)
      | Some scheduled \<Rightarrow>
          let scheduled' = scheduled
                \<lparr>task := (task scheduled)
                   \<lparr>status := Completed, output' := Some result, completedAt := Some (now s)\<rparr>\<rparr>;
              s1 = clearTaskTimeout scheduled s;
              s2 = s1\<lparr>tasks := AList.delete taskId (tasks s1),
                     agentTasks := index_remove (agentTasks s1) (agentId scheduled) taskId,
                     dropped := dropped s1 @ [scheduled']\<rparr>;
              s3 = s2\<lparr>completedTasks := set_add (completedTasks s2) taskId\<rparr>
          in (None,
              case map_of (taskDependencies s3) taskId of
                None \<Rightarrow> s3
              | Some dependents \<Rightarrow> fold startIfReady dependents s3))"

definition failTask :: "string \<Rightarrow> Failure \<Rightarrow> Scheduler \<Rightarrow> SchedulerError option \<times> Scheduler" where
  "failTask taskId err s =
     (case map_of (tasks s) taskId of
        None \<Rightarrow> (Some (TaskError (''Task not found: '' @ taskId)), s)
      | Some scheduled \<Rightarrow>
          let s1 = clearTaskTimeout scheduled s;
              scheduled1 = scheduled
                \<lparr>attempts := attempts scheduled + 1, lastAttempt := Some (now s1)\<rparr>
          in if attempts scheduled1 < maxRetries (config s1)
             then
               let delay = retryDelay (config s1) * 2 ^ (attempts scheduled1 - 1)
               in (None,
                   setTimeout (StartTaskCb taskId) delay
                     (s1\<lparr>tasks := AList.update taskId scheduled1 (tasks s1)\<rparr>))
             else
               let scheduled2 = scheduled1
                     \<lparr>task := (task scheduled1)
                        \<lparr>status := Failed, error := Some err, completedAt := Some (now s1)\<rparr>\<rparr>;
                   s2 = s1\<lparr>tasks := AList.delete taskId (tasks s1),
                          agentTasks := index_remove (agentTasks s1) (agentId scheduled) taskId,
                          dropped := dropped s1 @ [scheduled2]\<rparr>
               in (None, cancelDependentTasks taskId ''Parent task failed'' s2))"

subsection \<open>Reassignment, queries and maintenance\<close>

text \<open>The body of the loop in \<^verbatim>\<open>rescheduleAgentTasks\<close>.\<close>

definition requeue :: "string \<Rightarrow> Scheduler \<Rightarrow> Scheduler" where
  "requeue taskId s =
     (case map_of (tasks s) taskId of
        None \<Rightarrow> s
      | Some scheduled \<Rightarrow>
          if status (task scheduled) = Running
          then
            let scheduled' = scheduled\<lparr>task := (task scheduled)\<lparr>status := Queued\<rparr>, attempts := 0\<rparr>
            in s\<lparr>tasks := AList.update taskId scheduled' (tasks s),
                 emitted := emitted s @ [TASK_CREATED (task scheduled')]\<rparr>
          else s)"

definition rescheduleAgentTasks :: "string \<Rightarrow> Scheduler \<Rightarrow> Scheduler" where
  "rescheduleAgentTasks agent s =
     (case map_of (agentTasks s) agent of
        None \<Rightarrow> s
      | Some taskIds \<Rightarrow> if taskIds = [] then s else fold requeue taskIds s)"

definition getAgentTaskCount :: "Scheduler \<Rightarrow> string \<Rightarrow> nat" where
  "getAgentTaskCount s agent =
     (case map_of (agentTasks s) agent of None \<Rightarrow> 0 | Some taskIds \<Rightarrow> length taskIds)"

definition getAgentTasks :: "Scheduler \<Rightarrow> string \<Rightarrow> Task list" where
  "getAgentTasks s agent =
     (case map_of (agentTasks s) agent of
        None \<Rightarrow> []
      | Some taskIds \<Rightarrow>
          concat (map (\<lambda>taskId. case map_of (tasks s) taskId of
                                  None \<Rightarrow> [] | Some scheduled \<Rightarrow> [task scheduled]) taskIds))"

record HealthMetrics =
  m_activeTasks :: nat
  m_completedTasks :: nat
  m_agentsWithTasks :: nat
  m_pending :: nat
  m_queued :: nat
  m_assigned :: nat
  m_running :: nat
  m_completed :: nat
  m_failed :: nat
  m_cancelled :: nat

record HealthStatus =
  healthy :: bool
  h_error :: "string option"
  metrics :: HealthMetrics

text \<open>\<^verbatim>\<open>tasksByStatus[scheduled.task.status]++\<close>.\<close>

definition countStatus :: "ScheduledTask \<Rightarrow> (TaskStatus \<Rightarrow> nat) \<Rightarrow> (TaskStatus \<Rightarrow> nat)" where
  "countStatus scheduled byStatus =
     byStatus(status (task scheduled) := byStatus (status (task scheduled)) + 1)"

definition tasksByStatus :: "Scheduler \<Rightarrow> TaskStatus \<Rightarrow> nat" where
  "tasksByStatus s =
     fold countStatus (map snd (tasks s))
       (\<lambda>st. if st = Completed then length (completedTasks s) else 0)"

definition getHealthStatus :: "Scheduler \<Rightarrow> HealthStatus" where
  "getHealthStatus s =
     \<lparr>healthy = True, h_error = None,
      metrics =
        \<lparr>m_activeTasks = length (tasks s),
         m_completedTasks = length (completedTasks s),
         m_agentsWithTasks = length (agentTasks s),
         m_pending = tasksByStatus s Pending,
         m_queued = tasksByStatus s Queued,
         m_assigned = tasksByStatus s Assigned,
         m_running = tasksByStatus s Running,
         m_completed = tasksByStatus s Completed,
         m_failed = tasksByStatus s Failed,
         m_cancelled = tasksByStatus s Cancelled\<rparr>\<rparr>"

text \<open>
  The loop of \<^verbatim>\<open>cleanup\<close>: \<open>i\<close> steps are left and \<open>it\<close> is what the iterator over
  \<open>completedTasks\<close> has still to yield. A yielded value that is falsy (the empty string)
  is not deleted; the step is spent all the same.
\<close>

fun cleanupLoop :: "nat \<Rightarrow> string list \<Rightarrow> Scheduler \<Rightarrow> Scheduler" where
  "cleanupLoop 0 it s = s"
| "cleanupLoop (Suc i) [] s = cleanupLoop i [] s"
| "cleanupLoop (Suc i) (v # it) s =
     cleanupLoop i it
       (if v \<noteq> []
        then s\<lparr>completedTasks := removeAll v (completedTasks s),
               taskDependencies := AList.delete v (taskDependencies s)\<rparr>
        else s)"

definition cleanup :: "Scheduler \<Rightarrow> Scheduler" where
  "cleanup s =
     (if length (completedTasks s) > 1000
      then cleanupLoop (length (completedTasks s) - 1000) (completedTasks s) s
      else s)"

text \<open>
  The body of the loop over \<open>tasks\<close> in \<^verbatim>\<open>performMaintenance\<close>; an entry deleted
  earlier in the loop is not visited.
\<close>

definition failIfStuck :: "string \<Rightarrow> Scheduler \<Rightarrow> Scheduler" where
  "failIfStuck taskId s =
     (case map_of (tasks s) taskId of
        None \<Rightarrow> s
      | Some scheduled \<Rightarrow>
          (case startedAt (task scheduled) of
             None \<Rightarrow> s
           | Some started \<Rightarrow>
               if status (task scheduled) = Running
               then
                 let runtime = now s - started
                 in if runtime > resourceTimeout (config s) * 2
                    then snd (failTask taskId (TaskTimeoutError taskId runtime) s)
                    else s
               else s))"

definition performMaintenance :: "Scheduler \<Rightarrow> Scheduler" where
  "performMaintenance s = (let s1 = cleanup s in fold failIfStuck (map fst (tasks s1)) s1)"

definition initialize :: "Scheduler \<Rightarrow> Scheduler" where
  "initialize s = setTimeout CleanupCb 60000 s"

subsection \<open>Timers firing, and runs of the scheduler\<close>

text \<open>
  A pending timer fires: a \<^verbatim>\<open>setTimeout\<close> timer is spent, the \<^verbatim>\<open>setInterval\<close>
  of \<^verbatim>\<open>initialize\<close> stays. The timeout callback swallows what \<^verbatim>\<open>failTask\<close> throws.
\<close>

definition fire :: "nat \<Rightarrow> Scheduler \<Rightarrow> Scheduler" where
  "fire h s =
     (case map_of (timers s) h of
        None \<Rightarrow> s
      | Some (cb, ms) \<Rightarrow>
          (case cb of
             CleanupCb \<Rightarrow> cleanup s
           | StartTaskCb taskId \<Rightarrow> startTask taskId (clearTimeout h s)
           | FailTaskCb taskId timeoutMs \<Rightarrow>
               snd (failTask taskId (TaskTimeoutError taskId timeoutMs) (clearTimeout h s))))"

datatype Op =
    Initialize
  | Shutdown
  | AssignTask Task string
  | CompleteTask string string
  | FailTask string Failure
  | CancelTask string string
  | CancelAgentTasks string
  | RescheduleAgentTasks string
  | PerformMaintenance
  | Fire nat
  | Tick nat

text \<open>The state an operation leaves, whether it returns or throws.\<close>

fun step :: "Op \<Rightarrow> Scheduler \<Rightarrow> Scheduler" where
  "step Initialize s = initialize s"
| "step Shutdown s = shutdown s"
| "step (AssignTask t agent) s = snd (assignTask t agent s)"
| "step (CompleteTask taskId result) s = snd (completeTask taskId result s)"
| "step (FailTask taskId err) s = snd (failTask taskId err s)"
| "step (CancelTask taskId reason) s = cancelTask taskId reason s"
| "step (CancelAgentTasks agent) s = cancelAgentTasks agent s"
| "step (RescheduleAgentTasks agent) s = rescheduleAgentTasks agent s"
| "step PerformMaintenance s = performMaintenance s"
| "step (Fire h) s = fire h s"
| "step (Tick ms) s = s\<lparr>now := now s + ms\<rparr>"

definition exec :: "Op list \<Rightarrow> Scheduler \<Rightarrow> Scheduler" where
  "exec ops s = fold step ops s"

definition activeIds :: "Scheduler \<Rightarrow> string set" where
  "activeIds s = fst ` set (tasks s)"

subsection \<open>Sample inputs and the notions the statements use\<close>

text \<open>A task as a caller hands it to \<^verbatim>\<open>assignTask\<close>, and the configuration the
  repository ships as its default.\<close>

definition pendingTask :: "string \<Rightarrow> string list \<Rightarrow> Task" where
  "pendingTask taskId deps =
     \<lparr>id' = taskId, dependencies = deps, status = Pending, assignedAgent = None,
      output' = None, error = None, startedAt = None, completedAt = None\<rparr>"

definition defaultConfig :: CoordinationConfig where
  "defaultConfig = \<lparr>maxRetries = 3, retryDelay = 1000, resourceTimeout = 60000\<rparr>"

text \<open>The list \<^verbatim>\<open>unmetDependencies\<close> that \<^verbatim>\<open>assignTask\<close> computes.\<close>

definition unmet :: "Scheduler \<Rightarrow> Task \<Rightarrow> string list" where
  "unmet s t = filter (\<lambda>depId. depId \<notin> set (completedTasks s)) (dependencies t)"

text \<open>\<open>v\<close> is in the set that the index \<open>m\<close> holds for the key \<open>k\<close>.\<close>

definition registered :: "(string \<times> string list) list \<Rightarrow> string \<Rightarrow> string \<Rightarrow> bool" where
  "registered m k v = (case map_of m k of None \<Rightarrow> False | Some xs \<Rightarrow> v \<in> set xs)"

text \<open>No active task carries the status \<^verbatim>\<open>completed\<close>.\<close>

definition okTasks :: "(string \<times> ScheduledTask) list \<Rightarrow> bool" where
  "okTasks ts = list_all (\<lambda>e. status (task (snd e)) \<noteq> Completed) ts"

definition statusInv :: "Scheduler \<Rightarrow> bool" where
  "statusInv s = okTasks (tasks s)"




text \<open>From \<open>s\<close> to \<open>s'\<close> neither the active ids nor the completed ids have grown.\<close>

definition shrinks :: "Scheduler \<Rightarrow> Scheduler \<Rightarrow> bool" where
  "shrinks s s' = (activeIds s' \<subseteq> activeIds s \<and> set (completedTasks s') \<subseteq> set (completedTasks s))"

text \<open>The test of the loop over the dependents in \<^verbatim>\<open>completeTask\<close>: the dependent is
  active and \<^verbatim>\<open>canStartTask\<close> holds of it.\<close>

definition ready :: "Scheduler \<Rightarrow> string \<Rightarrow> bool" where
  "ready s dependentId =
     (case map_of (tasks s) dependentId of
        None \<Rightarrow> False
      | Some dependent \<Rightarrow> canStartTask s (task dependent))"

text \<open>What \<open>startIfReady\<close> emits for a dependent.\<close>

definition startedEvents :: "Scheduler \<Rightarrow> string \<Rightarrow> Event list" where
  "startedEvents s dependentId =
     (case map_of (tasks s) dependentId of
        None \<Rightarrow> []
      | Some dependent \<Rightarrow>
          if canStartTask s (task dependent)
          then [TASK_STARTED dependentId (agentId dependent)] else [])"

text \<open>A \<^verbatim>\<open>ScheduledTask\<close> after \<^verbatim>\<open>startTask\<close> at the given time, with the given timer handle.\<close>

definition started :: "ScheduledTask \<Rightarrow> nat \<Rightarrow> nat \<Rightarrow> ScheduledTask" where
  "started scheduled time h =
     scheduled\<lparr>task := (task scheduled)\<lparr>status := Running, startedAt := Some time\<rparr>,
               timeout := Some h\<rparr>"

text \<open>The timers that \<^verbatim>\<open>startTask\<close> arms when the given tasks are started one after the
  other: an execution timeout over \<open>ms\<close> milliseconds each, with the handles from \<open>h\<close> on.\<close>

fun startedTimers :: "nat \<Rightarrow> nat \<Rightarrow> string list \<Rightarrow> (nat \<times> Callback \<times> nat) list" where
  "startedTimers h ms [] = []"
| "startedTimers h ms (taskId # rest) =
     (h, FailTaskCb taskId ms, ms) # startedTimers (Suc h) ms rest"

text \<open>The dependents that the reverse-dependency index holds for a task id.\<close>

definition dependentsOf :: "Scheduler \<Rightarrow> string \<Rightarrow> string list" where
  "dependentsOf s taskId =
     (case map_of (taskDependencies s) taskId of None \<Rightarrow> [] | Some dependents \<Rightarrow> dependents)"

text \<open>The state of \<^verbatim>\<open>completeTask\<close> for an active task, before its loop over the dependents.\<close>

definition completedState :: "string \<Rightarrow> string \<Rightarrow> ScheduledTask \<Rightarrow> Scheduler \<Rightarrow> Scheduler" where
  "completedState taskId result scheduled s =
     s\<lparr>timers := filter (\<lambda>t. Some (fst t) \<noteq> timeout scheduled) (timers s),
       tasks := AList.delete taskId (tasks s),
       agentTasks := index_remove (agentTasks s) (agentId scheduled) taskId,
       dropped := dropped s @
         [scheduled\<lparr>task := (task scheduled)
            \<lparr>status := Completed, output' := Some result, completedAt := Some (now s)\<rparr>\<rparr>],
       completedTasks := set_add (completedTasks s) taskId\<rparr>"

text \<open>The events emitted between two states.\<close>

definition emittedSince :: "Scheduler \<Rightarrow> Scheduler \<Rightarrow> Event list" where
  "emittedSince s s' = drop (length (emitted s)) (emitted s')"

text \<open>A \<^verbatim>\<open>ScheduledTask\<close> as \<^verbatim>\<open>assignTask\<close> leaves it at time 0.\<close>

definition runningTask :: "string \<Rightarrow> string list \<Rightarrow> string \<Rightarrow> nat \<Rightarrow> ScheduledTask" where
  "runningTask taskId deps agent h =
     \<lparr>task = (pendingTask taskId deps)
        \<lparr>status := Running, assignedAgent := Some agent, startedAt := Some 0\<rparr>,
      agentId = agent, attempts = 0, lastAttempt = None, timeout = Some h\<rparr>"

text \<open>A run in which \<open>A\<close> completes, \<open>B\<close> is assigned as its dependent, and \<open>A\<close> is assigned again.\<close>

definition reassigned :: Scheduler where
  "reassigned =
     exec [AssignTask (pendingTask ''A'' []) ''agent-1'',
           CompleteTask ''A'' ''done'',
           AssignTask (pendingTask ''B'' [''A'']) ''agent-1'',
           AssignTask (pendingTask ''A'' []) ''agent-1'']
       (newScheduler defaultConfig)"

text \<open>The tasks that a cancellation of the roots reaches: the active roots, and every active
  task registered as a dependent of a task already reached.\<close>

inductive_set cascade :: "Scheduler \<Rightarrow> string set \<Rightarrow> string set"
  for s :: Scheduler and roots :: "string set" where
    root: "x \<in> roots \<Longrightarrow> x \<in> activeIds s \<Longrightarrow> x \<in> cascade s roots"
  | dependent: "x \<in> cascade s roots \<Longrightarrow> d \<in> set (dependentsOf s x) \<Longrightarrow> d \<in> activeIds s
      \<Longrightarrow> d \<in> cascade s roots"

text \<open>A \<^verbatim>\<open>ScheduledTask\<close> as \<^verbatim>\<open>cancelTask\<close> leaves it.\<close>

definition cancelledObj :: "ScheduledTask \<Rightarrow> nat \<Rightarrow> ScheduledTask" where
  "cancelledObj scheduled time =
     scheduled\<lparr>task := (task scheduled)\<lparr>status := Cancelled, completedAt := Some time\<rparr>\<rparr>"

text \<open>The task objects dropped between two states.\<close>

definition droppedSince :: "Scheduler \<Rightarrow> Scheduler \<Rightarrow> ScheduledTask list" where
  "droppedSince s s' = drop (length (dropped s)) (dropped s')"

text \<open>From \<open>s\<close> to \<open>s'\<close> events and dropped objects were only appended, timers and index
  entries only removed, and the tasks still active are as they were.\<close>

definition extends :: "Scheduler \<Rightarrow> Scheduler \<Rightarrow> bool" where
  "extends s s' =
     ((\<exists>es. emitted s' = emitted s @ es)
      \<and> (\<exists>os. dropped s' = dropped s @ os)
      \<and> set (timers s') \<subseteq> set (timers s)
      \<and> (\<forall>a v. registered (agentTasks s') a v \<longrightarrow> registered (agentTasks s) a v)
      \<and> tasks s' = filter (\<lambda>e. fst e \<in> activeIds s') (tasks s)
      \<and> now s' = now s)"

text \<open>In \<open>s'\<close> the task \<open>x\<close>, active in \<open>s\<close> as \<open>scheduled\<close>, is cancelled: it is not
  active, its object was dropped with status \<^verbatim>\<open>cancelled\<close> and \<open>completedAt\<close>, it is not
  in its agent's set, and the timer it held is not pending.\<close>

definition gone :: "Scheduler \<Rightarrow> Scheduler \<Rightarrow> string \<Rightarrow> ScheduledTask \<Rightarrow> bool" where
  "gone s s' x scheduled =
     (x \<notin> activeIds s'
      \<and> cancelledObj scheduled (now s) \<in> set (droppedSince s s')
      \<and> \<not> registered (agentTasks s') (agentId scheduled) x
      \<and> (case timeout scheduled of None \<Rightarrow> True | Some h \<Rightarrow> h \<notin> fst ` set (timers s')))"

text \<open>Every event emitted from \<open>s\<close> to \<open>s'\<close> is the cancellation of a task that was removed,
  with the given reason or the reason of the cascade, and every removed task has one.\<close>

definition announced :: "Scheduler \<Rightarrow> Scheduler \<Rightarrow> string \<Rightarrow> bool" where
  "announced s s' reason =
     ((\<forall>e \<in> set (emittedSince s s').
         \<exists>x. x \<in> activeIds s \<and> x \<notin> activeIds s'
           \<and> (e = TASK_CANCELLED x reason \<or> e = TASK_CANCELLED x ''Parent task cancelled''))
      \<and> (\<forall>x. x \<in> activeIds s \<and> x \<notin> activeIds s' \<longrightarrow>
            TASK_CANCELLED x reason \<in> set (emittedSince s s')
            \<or> TASK_CANCELLED x ''Parent task cancelled'' \<in> set (emittedSince s s')))"

text \<open>A run after which \<open>A\<close> is active with its two active dependents \<open>B\<close> and \<open>C\<close>.\<close>

definition fanout :: Scheduler where
  "fanout =
     exec [AssignTask (pendingTask ''A'' []) ''agent-1'',
           CompleteTask ''A'' ''done'',
           AssignTask (pendingTask ''B'' [''A'']) ''agent-1'',
           AssignTask (pendingTask ''C'' [''A'']) ''agent-2'',
           AssignTask (pendingTask ''A'' []) ''agent-1'']
       (newScheduler defaultConfig)"

text \<open>A \<^verbatim>\<open>ScheduledTask\<close> as \<^verbatim>\<open>failTask\<close> leaves it when the retries are exhausted.\<close>

definition failedObj :: "ScheduledTask \<Rightarrow> Failure \<Rightarrow> nat \<Rightarrow> ScheduledTask" where
  "failedObj scheduled err time =
     scheduled\<lparr>attempts := attempts scheduled + 1, lastAttempt := Some time,
               task := (task scheduled)
                 \<lparr>status := Failed, error := Some err, completedAt := Some time\<rparr>\<rparr>"

text \<open>The state of \<^verbatim>\<open>failTask\<close> for an active task whose retries are exhausted, before
  the cascade.\<close>

definition failedState :: "string \<Rightarrow> Failure \<Rightarrow> ScheduledTask \<Rightarrow> Scheduler \<Rightarrow> Scheduler" where
  "failedState taskId err scheduled s =
     s\<lparr>timers := filter (\<lambda>t. Some (fst t) \<noteq> timeout scheduled) (timers s),
       tasks := AList.delete taskId (tasks s),
       agentTasks := index_remove (agentTasks s) (agentId scheduled) taskId,
       dropped := dropped s @ [failedObj scheduled err (now s)]\<rparr>"

text \<open>The state \<^verbatim>\<open>failTask\<close> leaves for an active task that is retried.\<close>

definition retryState :: "string \<Rightarrow> ScheduledTask \<Rightarrow> Scheduler \<Rightarrow> Scheduler" where
  "retryState taskId scheduled s =
     s\<lparr>timers := filter (\<lambda>t. Some (fst t) \<noteq> timeout scheduled) (timers s)
                  @ [(nextHandle s, StartTaskCb taskId,
                      retryDelay (config s) * 2 ^ (attempts scheduled + 1 - 1))],
       nextHandle := Suc (nextHandle s),
       tasks := AList.update taskId
                  (scheduled\<lparr>attempts := attempts scheduled + 1, lastAttempt := Some (now s)\<rparr>)
                  (tasks s)\<rparr>"

text \<open>The ids of \<open>ds\<close> that a loop over \<open>ds\<close>, cancelling each with its cascade, finds
  active: those active in \<open>s\<close> that are in the cascade of no earlier id of \<open>ds\<close>.\<close>

definition foundActive :: "Scheduler \<Rightarrow> string list \<Rightarrow> string set" where
  "foundActive s ds =
     {d. \<exists>i < length ds. ds ! i = d \<and> d \<in> activeIds s \<and> d \<notin> cascade s (set (take i ds))}"

text \<open>The reason with which the loop of \<^verbatim>\<open>cancelDependentTasks\<close> over \<open>ds\<close> cancels the task
  \<open>x\<close>: the reason the loop was given if the loop itself finds \<open>x\<close> active, and the reason of
  the cascade, \<^verbatim>\<open>Parent task cancelled\<close>, if \<open>x\<close> is reached below one of \<open>ds\<close>.\<close>

definition cascadeReason :: "Scheduler \<Rightarrow> string list \<Rightarrow> string \<Rightarrow> string \<Rightarrow> string" where
  "cascadeReason s ds reason x =
     (if x \<in> foundActive s ds then reason else ''Parent task cancelled'')"

text \<open>A run, with \<open>maxRetries = 1\<close>, after which \<open>A\<close>, its dependent \<open>B\<close> and
  \<open>B\<close>'s dependent \<open>C\<close> are all active.\<close>

definition chain :: Scheduler where
  "chain =
     exec [AssignTask (pendingTask ''A'' []) ''agent-1'',
           CompleteTask ''A'' ''done'',
           AssignTask (pendingTask ''B'' [''A'']) ''agent-1'',
           CompleteTask ''B'' ''done'',
           AssignTask (pendingTask ''C'' [''B'']) ''agent-1'',
           AssignTask (pendingTask ''B'' [''A'']) ''agent-1'',
           AssignTask (pendingTask ''A'' []) ''agent-1'']
       (newScheduler (defaultConfig\<lparr>maxRetries := 1\<rparr>))"

text \<open>A run, with \<open>maxRetries = 1\<close>, after which \<open>A\<close> is active, its dependent \<open>B\<close> is
  completed and not active, and \<open>B\<close>'s dependent \<open>C\<close> is active.\<close>

definition behind :: Scheduler where
  "behind =
     exec [AssignTask (pendingTask ''A'' []) ''agent-1'',
           CompleteTask ''A'' ''done'',
           AssignTask (pendingTask ''B'' [''A'']) ''agent-1'',
           CompleteTask ''B'' ''done'',
           AssignTask (pendingTask ''C'' [''B'']) ''agent-1'',
           AssignTask (pendingTask ''A'' []) ''agent-1'']
       (newScheduler (defaultConfig\<lparr>maxRetries := 1\<rparr>))"

text \<open>A run, with \<open>maxRetries = 1\<close>, in which \<open>T\<close> is assigned to \<open>agent-1\<close>, handed back by
  \<^verbatim>\<open>rescheduleAgentTasks\<close> and assigned to \<open>agent-2\<close>.\<close>

definition moved :: Scheduler where
  "moved =
     exec [AssignTask (pendingTask ''T'' []) ''agent-1'',
           RescheduleAgentTasks ''agent-1'',
           AssignTask (pendingTask ''T'' []) ''agent-2'']
       (newScheduler (defaultConfig\<lparr>maxRetries := 1\<rparr>))"

text \<open>A task that is assigned and then fails each time it runs, under the default
  configuration: the operations up to the first, the second and the third failure.\<close>

definition firstFailure :: "Op list" where
  "firstFailure =
     [AssignTask (pendingTask ''T'' []) ''agent-1'', FailTask ''T'' (Error ''boom'')]"

definition secondFailure :: "Op list" where
  "secondFailure = firstFailure @ [Fire 1, FailTask ''T'' (Error ''boom'')]"

definition thirdFailure :: "Op list" where
  "thirdFailure = secondFailure @ [Fire 3, FailTask ''T'' (Error ''boom'')]"

text \<open>One task, assigned and running.\<close>

definition assignedOnce :: Scheduler where
  "assignedOnce = exec [AssignTask (pendingTask ''T'' []) ''agent-1''] (newScheduler defaultConfig)"





text \<open>The task of \<open>assignedOnce\<close> after \<^verbatim>\<open>rescheduleAgentTasks\<close> for its agent.\<close>

definition requeued :: Scheduler where
  "requeued = exec [RescheduleAgentTasks ''agent-1''] assignedOnce"

section \<open>Auxiliary facts\<close>

subsection \<open>The indices\<close>

lemma set_set_add [simp]: "set (set_add xs x) = insert x (set xs)"
  by (auto simp: set_add_def)

lemma registered_index_add_same: "registered (index_add m k v) k v"
  by (simp add: registered_def index_add_def update_conv' split: option.splits)

lemma registered_index_add_mono:
  "registered m k v \<Longrightarrow> registered (index_add m k' v') k v"
  by (auto simp: registered_def index_add_def update_conv' split: option.splits)

lemma fold_registerDependency_frame:
  "tasks (fold (registerDependency i) ds s) = tasks s"
  "agentTasks (fold (registerDependency i) ds s) = agentTasks s"
  "completedTasks (fold (registerDependency i) ds s) = completedTasks s"
  "config (fold (registerDependency i) ds s) = config s"
  "emitted (fold (registerDependency i) ds s) = emitted s"
  "timers (fold (registerDependency i) ds s) = timers s"
  "nextHandle (fold (registerDependency i) ds s) = nextHandle s"
  "now (fold (registerDependency i) ds s) = now s"
  "dropped (fold (registerDependency i) ds s) = dropped s"
  by (induction ds arbitrary: s; simp add: registerDependency_def)+

lemma fold_registerDependency_mono:
  "registered (taskDependencies s) k v \<Longrightarrow>
     registered (taskDependencies (fold (registerDependency i) ds s)) k v"
  by (induction ds arbitrary: s) (simp_all add: registerDependency_def registered_index_add_mono)

lemma fold_registerDependency_registered:
  "d \<in> set ds \<Longrightarrow> registered (taskDependencies (fold (registerDependency i) ds s)) d i"
proof (induction ds arbitrary: s)
  case Nil
  then show ?case by simp
next
  case (Cons a ds)
  show ?case
  proof (cases "d = a")
    case True
    have "registered (taskDependencies (registerDependency i a s)) a i"
      by (simp add: registerDependency_def registered_index_add_same)
    then show ?thesis using True by (simp add: fold_registerDependency_mono)
  next
    case False
    with Cons show ?thesis by simp
  qed
qed

subsection \<open>What the cascade leaves alone\<close>

lemma cancelActive_frame:
  "completedTasks (cancelActive t sch r s) = completedTasks s"
  "taskDependencies (cancelActive t sch r s) = taskDependencies s"
  "config (cancelActive t sch r s) = config s"
  "now (cancelActive t sch r s) = now s"
  "nextHandle (cancelActive t sch r s) = nextHandle s"
  by (simp_all add: cancelActive_def Let_def clearTaskTimeout_def clearTimeout_def split: option.splits)

lemma cancel_frame:
  "completedTasks (cancelTask t r s) = completedTasks s
   \<and> taskDependencies (cancelTask t r s) = taskDependencies s
   \<and> config (cancelTask t r s) = config s
   \<and> now (cancelTask t r s) = now s
   \<and> nextHandle (cancelTask t r s) = nextHandle s
   \<and> set (tasks (cancelTask t r s)) \<subseteq> set (tasks s)"
  "completedTasks (cancelDependentTasks t r s) = completedTasks s
   \<and> taskDependencies (cancelDependentTasks t r s) = taskDependencies s
   \<and> config (cancelDependentTasks t r s) = config s
   \<and> now (cancelDependentTasks t r s) = now s
   \<and> nextHandle (cancelDependentTasks t r s) = nextHandle s
   \<and> set (tasks (cancelDependentTasks t r s)) \<subseteq> set (tasks s)"
  "completedTasks (cancelEach ds r s) = completedTasks s
   \<and> taskDependencies (cancelEach ds r s) = taskDependencies s
   \<and> config (cancelEach ds r s) = config s
   \<and> now (cancelEach ds r s) = now s
   \<and> nextHandle (cancelEach ds r s) = nextHandle s
   \<and> set (tasks (cancelEach ds r s)) \<subseteq> set (tasks s)"
proof (induction t r s and t r s and ds r s
    rule: cancelTask_cancelDependentTasks_cancelEach.induct)
  case (1 taskId reason s)
  show ?case
  proof (cases "map_of (tasks s) taskId")
    case None
    then show ?thesis by (simp add: cancelTask.simps)
  next
    case (Some sch)
    have "set (AList.delete taskId (tasks s)) \<subseteq> set (tasks s)"
      by (auto simp: AList.delete_eq)
    with 1[OF Some] Some show ?thesis
      by (auto simp add: cancelTask.simps cancelActive_frame tasks_cancelActive)
  qed
next
  case (2 taskId reason s)
  then show ?case by (simp add: cancelDependentTasks.simps split: option.splits)
next
  case (3 reason s)
  then show ?case by simp
next
  case (4 d rest reason s)
  then show ?case by auto
qed

lemma call_frame:
  "completedTasks (snd (callCancel t r s)) = completedTasks s
   \<and> set (tasks (snd (callCancel t r s))) \<subseteq> set (tasks s)"
  "completedTasks (snd (callLoop ds r s)) = completedTasks s
   \<and> set (tasks (snd (callLoop ds r s))) \<subseteq> set (tasks s)"
proof (induction t r s and ds r s rule: callCancel_callLoop.induct)
  case (1 taskId reason s)
  show ?case
  proof (cases "map_of (tasks s) taskId")
    case None
    then show ?thesis by (simp add: callCancel.simps)
  next
    case (Some sch)
    have d: "set (tasks (cancelActive taskId sch reason s)) \<subseteq> set (tasks s)"
      by (auto simp: tasks_cancelActive AList.delete_eq)
    show ?thesis
    proof (cases "map_of (taskDependencies s) taskId")
      case None
      with Some d show ?thesis by (simp add: callCancel.simps cancelActive_frame)
    next
      case ds: (Some dependents)
      from 1[OF Some ds] d Some ds show ?thesis
        by (auto simp add: callCancel.simps split_beta cancelActive_frame)
    qed
  qed
next
  case (2 reason s)
  show ?case by simp
next
  case (3 d rest reason s)
  then show ?case by (simp add: split_beta)
qed

lemma resume_frame:
  "completedTasks (snd (resume c s)) = completedTasks s
   \<and> set (tasks (snd (resume c s))) \<subseteq> set (tasks s)"
proof (cases c)
  case Nil
  then show ?thesis by simp
next
  case (Cons f outer)
  with call_frame(2) show ?thesis by (cases f) (simp_all add: split_beta)
qed

lemma runQueue_frame:
  "completedTasks (runQueue q s) = completedTasks s
   \<and> set (tasks (runQueue q s)) \<subseteq> set (tasks s)"
proof (induction q s rule: runQueue.induct)
  case (1 s)
  show ?case by simp
next
  case (2 c q s)
  from 2[of "fst (resume c s)" "snd (resume c s)"] resume_frame[of c s]
  show ?case by (auto simp add: split_beta)
qed

lemma startAll_frame:
  "completedTasks (snd (startAll ts r q s)) = completedTasks s
   \<and> set (tasks (snd (startAll ts r q s))) \<subseteq> set (tasks s)"
proof (induction ts arbitrary: q s)
  case Nil
  show ?case by simp
next
  case (Cons t ts)
  from Cons[of "if fst (callCancel t r s) = [] then q else q @ [fst (callCancel t r s)]"
      "snd (callCancel t r s)"] call_frame(1)[of t r s]
  show ?case by (auto simp add: split_beta)
qed

lemma cancelAll_frame:
  "completedTasks (cancelAll ts r s) = completedTasks s
   \<and> set (tasks (cancelAll ts r s)) \<subseteq> set (tasks s)"
  using startAll_frame[of ts r "[]" s]
    runQueue_frame[of "fst (startAll ts r [] s)" "snd (startAll ts r [] s)"]
  by (auto simp add: cancelAll_def split_beta)

subsection \<open>No active task is marked completed\<close>

lemma set_update_subset: "set (AList.update k v al) \<subseteq> insert (k, v) (set al)"
  by (induction al) auto

lemma set_delete_subset: "set (AList.delete k al) \<subseteq> set al"
  by (auto simp: AList.delete_eq)

lemma okTasks_subset: "okTasks ts \<Longrightarrow> set ts' \<subseteq> set ts \<Longrightarrow> okTasks ts'"
  by (auto simp: okTasks_def list_all_iff)

lemma okTasks_update:
  "okTasks ts \<Longrightarrow> status (task v) \<noteq> Completed \<Longrightarrow> okTasks (AList.update k v ts)"
  using set_update_subset[of k v ts] by (auto simp: okTasks_def list_all_iff)

lemma okTasks_delete: "okTasks ts \<Longrightarrow> okTasks (AList.delete k ts)"
  by (rule okTasks_subset[OF _ set_delete_subset])

lemma okTasks_lookup: "okTasks ts \<Longrightarrow> map_of ts k = Some v \<Longrightarrow> status (task v) \<noteq> Completed"
  by (auto simp: okTasks_def list_all_iff dest!: map_of_SomeD)

lemma tasks_clearTaskTimeout [simp]: "tasks (clearTaskTimeout sch s) = tasks s"
  by (simp add: clearTaskTimeout_def clearTimeout_def split: option.splits)

lemma tasks_setTimeout [simp]: "tasks (setTimeout cb d s) = tasks s"
  by (simp add: setTimeout_def)

lemma tasks_clearTimeout [simp]: "tasks (clearTimeout h s) = tasks s"
  by (simp add: clearTimeout_def)

lemma statusInv_startTask: "statusInv s \<Longrightarrow> statusInv (startTask t s)"
  by (cases "map_of (tasks s) t")
     (simp_all add: startTask_def Let_def statusInv_def okTasks_update)

lemma statusInv_fold_startIfReady: "statusInv s \<Longrightarrow> statusInv (fold startIfReady ds s)"
  by (induction ds arbitrary: s)
     (auto simp: startIfReady_def statusInv_startTask split: option.splits)

lemma statusInv_assignTask: "statusInv s \<Longrightarrow> statusInv (snd (assignTask t a s))"
proof -
  assume inv: "statusInv s"
  have "statusInv (fold (registerDependency (id' t)) (dependencies t)
      (s\<lparr>tasks := AList.update (id' t) sch (tasks s), dropped := x, agentTasks := y\<rparr>))"
    if "status (task sch) \<noteq> Completed" for sch x y
    using inv that by (simp add: statusInv_def fold_registerDependency_frame okTasks_update)
  with inv show ?thesis 
    by (simp add: assignTask_def Let_def statusInv_startTask)
qed

lemma statusInv_completeTask: "statusInv s \<Longrightarrow> statusInv (snd (completeTask t r s))"
proof (cases "map_of (tasks s) t")
  case None
  assume "statusInv s"
  with None show ?thesis by (simp add: completeTask_def)
next
  case (Some sch)
  assume inv: "statusInv s"
  have "statusInv ((clearTaskTimeout sch s)\<lparr>tasks := AList.delete t (tasks (clearTaskTimeout sch s)),
       agentTasks := x, dropped := y, completedTasks := z\<rparr>)" for x y z
    using inv by (simp add: statusInv_def okTasks_delete)
  with Some show ?thesis
    by (simp add: completeTask_def Let_def statusInv_fold_startIfReady split: option.splits)
qed

lemma statusInv_cancelDependentTasks:
  "statusInv s \<Longrightarrow> statusInv (cancelDependentTasks t r s)"
  using cancel_frame(2)[of t r s] by (auto simp: statusInv_def elim: okTasks_subset)

lemma statusInv_cancelTask: "statusInv s \<Longrightarrow> statusInv (cancelTask t r s)"
  using cancel_frame(1)[of t r s] by (auto simp: statusInv_def elim: okTasks_subset)

lemma statusInv_failTask: "statusInv s \<Longrightarrow> statusInv (snd (failTask t e s))"
proof (cases "map_of (tasks s) t")
  case None
  assume "statusInv s"
  with None show ?thesis by (simp add: failTask_def)
next
  case (Some sch)
  assume inv: "statusInv s"
  with Some have st: "status (task sch) \<noteq> Completed"
    by (auto simp: statusInv_def dest: okTasks_lookup)
  have a: "statusInv (setTimeout cb d ((clearTaskTimeout sch s)
           \<lparr>tasks := AList.update t (sch\<lparr>attempts := n, lastAttempt := l\<rparr>)
                (tasks (clearTaskTimeout sch s))\<rparr>))" for cb d n l
    using inv st by (simp add: statusInv_def okTasks_update)
  have b: "statusInv (cancelDependentTasks t r ((clearTaskTimeout sch s)
           \<lparr>tasks := AList.delete t (tasks (clearTaskTimeout sch s)), agentTasks := x, dropped := y\<rparr>))" for r x y
    by (rule statusInv_cancelDependentTasks) (use inv in \<open>simp add: statusInv_def okTasks_delete\<close>)
  from Some a b show ?thesis
    by (simp add: failTask_def Let_def)
qed

lemma statusInv_cancelAll: "statusInv s \<Longrightarrow> statusInv (cancelAll ts r s)"
  using cancelAll_frame[of ts r s] by (auto simp: statusInv_def elim: okTasks_subset)

lemma statusInv_requeue: "statusInv s \<Longrightarrow> statusInv (requeue t s)"
  by (cases "map_of (tasks s) t")
     (simp_all add: requeue_def Let_def statusInv_def okTasks_update)

lemma statusInv_fold_requeue: "statusInv s \<Longrightarrow> statusInv (fold requeue ts s)"
  by (induction ts arbitrary: s) (simp_all add: statusInv_requeue)

lemma tasks_cleanupLoop [simp]: "tasks (cleanupLoop i it s) = tasks s"
  by (induction i it s rule: cleanupLoop.induct) simp_all

lemma tasks_cleanup [simp]: "tasks (cleanup s) = tasks s"
  by (simp add: cleanup_def)

lemma statusInv_failIfStuck: "statusInv s \<Longrightarrow> statusInv (failIfStuck t s)"
  by (simp add: failIfStuck_def Let_def statusInv_failTask split: option.splits)

lemma statusInv_fold_failIfStuck: "statusInv s \<Longrightarrow> statusInv (fold failIfStuck ts s)"
  by (induction ts arbitrary: s) (simp_all add: statusInv_failIfStuck)

lemma statusInv_step: "statusInv s \<Longrightarrow> statusInv (step op s)"
proof (cases op)
  case Initialize
  assume "statusInv s"
  with Initialize show ?thesis by (simp add: initialize_def statusInv_def)
next
  case Shutdown
  then show ?thesis by (simp add: shutdown_def Let_def statusInv_def okTasks_def)
next
  case (AssignTask t a)
  assume "statusInv s"
  with AssignTask show ?thesis by (simp add: statusInv_assignTask)
next
  case (CompleteTask t r)
  assume "statusInv s"
  with CompleteTask show ?thesis by (simp add: statusInv_completeTask)
next
  case (FailTask t e)
  assume "statusInv s"
  with FailTask show ?thesis by (simp add: statusInv_failTask)
next
  case (CancelTask t r)
  assume "statusInv s"
  with CancelTask show ?thesis by (simp add: statusInv_cancelTask)
next
  case (CancelAgentTasks a)
  assume "statusInv s"
  then have "statusInv (cancelAll ts r s)" for r ts
    by (rule statusInv_cancelAll)
  then have "statusInv ((cancelAll ts r s)\<lparr>agentTasks := x\<rparr>)" for r ts x
    by (simp add: statusInv_def)
  with CancelAgentTasks \<open>statusInv s\<close> show ?thesis
    by (simp add: cancelAgentTasks_def Let_def split: option.splits)
next
  case (RescheduleAgentTasks a)
  assume "statusInv s"
  with RescheduleAgentTasks show ?thesis
    by (simp add: rescheduleAgentTasks_def statusInv_fold_requeue split: option.splits)
next
  case PerformMaintenance
  assume "statusInv s"
  then have "statusInv (cleanup s)" by (simp add: statusInv_def)
  with PerformMaintenance show ?thesis
    by (simp add: performMaintenance_def Let_def statusInv_fold_failIfStuck)
next
  case (Fire h)
  assume inv: "statusInv s"
  then have c: "statusInv (cleanup s)" and d: "statusInv (clearTimeout h s)"
    by (simp_all add: statusInv_def)
  with Fire show ?thesis
    by (simp add: fire_def inv statusInv_startTask statusInv_failTask
        split: option.splits Callback.splits prod.splits)
next
  case (Tick n)
  assume "statusInv s"
  with Tick show ?thesis by (simp add: statusInv_def)
qed

lemma statusInv_exec: "statusInv s \<Longrightarrow> statusInv (exec ops s)"
  unfolding exec_def by (induction ops arbitrary: s) (simp_all add: statusInv_step)

lemma statusInv_new: "statusInv (newScheduler cfg)"
  by (simp add: statusInv_def okTasks_def newScheduler_def)

lemma fold_countStatus:
  "fold countStatus xs f st = f st + length (filter (\<lambda>sch. status (task sch) = st) xs)"
  by (induction xs arbitrary: f) (simp_all add: countStatus_def)

lemma completed_metric:
  "m_completed (metrics (getHealthStatus s)) =
     length (completedTasks s) + length (filter (\<lambda>sch. status (task sch) = Completed) (map snd (tasks s)))"
  by (simp add: getHealthStatus_def tasksByStatus_def fold_countStatus)

lemma statusInv_no_completed:
  "statusInv s \<Longrightarrow> filter (\<lambda>sch. status (task sch) = Completed) (map snd (tasks s)) = []"
  by (auto simp: statusInv_def okTasks_def list_all_iff filter_empty_conv)

subsection \<open>Active ids and completed ids\<close>

lemma shrinks_refl [simp]: "shrinks s s"
  by (simp add: shrinks_def)

lemma shrinks_trans: "shrinks s s' \<Longrightarrow> shrinks s' s'' \<Longrightarrow> shrinks s s''"
  by (auto simp: shrinks_def)


lemma shrinks_fold:
  assumes "\<And>x s. shrinks s (f x s)"
  shows "shrinks s (fold f xs s)"
proof (induction xs arbitrary: s)
  case Nil
  show ?case by simp
next
  case (Cons x xs)
  from assms[of s x] Cons[of "f x s"] show ?case by (auto intro: shrinks_trans)
qed

lemma keys_delete: "fst ` set (AList.delete k al) = fst ` set al - {k}"
proof -
  have "fst ` set (AList.delete k al) = set (map fst (AList.delete k al))" by simp
  also have "\<dots> = set (map fst al) - {k}" by (simp only: delete_keys set_removeAll)
  finally show ?thesis by simp
qed

lemma activeIds_update_present:
  assumes "map_of al k = Some v"
  shows "fst ` set (AList.update k v' al) = fst ` set al"
proof -
  from assms have "(k, v) \<in> set al" by (rule map_of_SomeD)
  then have "k \<in> fst ` set al" by force
  then show ?thesis by (auto simp: dom_update)
qed

lemma shrinks_startTask: "shrinks s (startTask t s)"
  by (cases "map_of (tasks s) t")
     (simp_all add: startTask_def Let_def shrinks_def activeIds_def setTimeout_def
        activeIds_update_present)

lemma shrinks_startIfReady: "shrinks s (startIfReady t s)"
  by (simp add: startIfReady_def shrinks_startTask split: option.splits)















subsection \<open>The loop over the dependents of a completed task\<close>

lemma started_started [simp]: "started (started d n h) n h' = started d n h'"
  by (simp add: started_def)

lemma startTask_found:
  "map_of (tasks s) t = Some d \<Longrightarrow>
     startTask t s =
       s\<lparr>tasks := AList.update t (started d (now s) (nextHandle s)) (tasks s),
         emitted := emitted s @ [TASK_STARTED t (agentId d)],
         timers := timers s @ [(nextHandle s, FailTaskCb t (resourceTimeout (config s)),
                                resourceTimeout (config s))],
         nextHandle := Suc (nextHandle s)\<rparr>"
  by (simp add: startTask_def Let_def setTimeout_def started_def)

lemma startTask_absent: "map_of (tasks s) t = None \<Longrightarrow> startTask t s = s"
  by (simp add: startTask_def)

lemma startIfReady_frame:
  "completedTasks (startIfReady x s) = completedTasks s"
  "agentTasks (startIfReady x s) = agentTasks s"
  "taskDependencies (startIfReady x s) = taskDependencies s"
  "dropped (startIfReady x s) = dropped s"
  "config (startIfReady x s) = config s"
  "now (startIfReady x s) = now s"
  by (cases "map_of (tasks s) x"; simp add: startIfReady_def startTask_found)+

lemma fold_startIfReady_frame:
  "completedTasks (fold startIfReady ds s) = completedTasks s"
  "agentTasks (fold startIfReady ds s) = agentTasks s"
  "taskDependencies (fold startIfReady ds s) = taskDependencies s"
  "dropped (fold startIfReady ds s) = dropped s"
  "config (fold startIfReady ds s) = config s"
  "now (fold startIfReady ds s) = now s"
  by (induction ds arbitrary: s; simp add: startIfReady_frame)+

lemma startIfReady_other:
  "x \<noteq> b \<Longrightarrow> map_of (tasks (startIfReady x s)) b = map_of (tasks s) b"
  by (cases "map_of (tasks s) x") (simp_all add: startIfReady_def startTask_found update_conv')

lemma startIfReady_not_ready: "\<not> ready s x \<Longrightarrow> startIfReady x s = s"
  by (simp add: ready_def startIfReady_def split: option.splits)

lemma startIfReady_ready:
  "map_of (tasks s) x = Some d \<Longrightarrow> canStartTask s (task d) \<Longrightarrow>
     map_of (tasks (startIfReady x s)) x = Some (started d (now s) (nextHandle s))"
  by (simp add: startIfReady_def startTask_found update_conv')

lemma canStartTask_cong:
  "completedTasks s' = completedTasks s \<Longrightarrow> dependencies t' = dependencies t \<Longrightarrow>
     canStartTask s' t' = canStartTask s t"
  by (simp add: canStartTask_def)

lemma canStartTask_startIfReady [simp]:
  "canStartTask (startIfReady x s) t = canStartTask s t"
  by (simp add: canStartTask_def startIfReady_frame)

lemma ready_startIfReady [simp]: "ready (startIfReady x s) b = ready s b"
proof (cases "x = b")
  case False
  then show ?thesis
    by (simp add: ready_def startIfReady_other cong: option.case_cong)
next
  case True
  show ?thesis
  proof (cases "ready s x")
    case False
    with True show ?thesis by (simp add: startIfReady_not_ready)
  next
    case r: True
    then obtain d where d: "map_of (tasks s) x = Some d" "canStartTask s (task d)"
      by (auto simp: ready_def split: option.splits)
    from startIfReady_ready[OF d] d True show ?thesis
      by (simp add: ready_def canStartTask_def startIfReady_frame started_def)
  qed
qed

lemma startedEvents_startIfReady [simp]:
  "startedEvents (startIfReady x s) b = startedEvents s b"
proof (cases "x = b")
  case False
  then show ?thesis
    by (simp add: startedEvents_def startIfReady_other cong: option.case_cong)
next
  case True
  show ?thesis
  proof (cases "ready s x")
    case False
    with True show ?thesis by (simp add: startIfReady_not_ready)
  next
    case r: True
    then obtain d where d: "map_of (tasks s) x = Some d" "canStartTask s (task d)"
      by (auto simp: ready_def split: option.splits)
    from startIfReady_ready[OF d] d True show ?thesis
      by (simp add: startedEvents_def canStartTask_def startIfReady_frame started_def)
  qed
qed

lemma emitted_startIfReady:
  "emitted (startIfReady x s) = emitted s @ startedEvents s x"
  by (cases "map_of (tasks s) x") (simp_all add: startIfReady_def startedEvents_def startTask_found)

lemma startedEvents_fold [simp]:
  "startedEvents (fold startIfReady ds s) b = startedEvents s b"
  by (induction ds arbitrary: s) simp_all

lemma emitted_fold_startIfReady:
  "emitted (fold startIfReady ds s) = emitted s @ concat (map (startedEvents s) ds)"
proof (induction ds arbitrary: s)
  case Nil
  show ?case by simp
next
  case (Cons x ds)
  have "map (startedEvents (startIfReady x s)) ds = map (startedEvents s) ds"
    by simp
  with Cons[of "startIfReady x s"] show ?case
    by (simp add: emitted_startIfReady)
qed

lemma fold_startIfReady_other:
  "b \<notin> set ds \<Longrightarrow> map_of (tasks (fold startIfReady ds s)) b = map_of (tasks s) b"
  by (induction ds arbitrary: s) (auto simp: startIfReady_other)

lemma fold_startIfReady_not_ready:
  "\<not> ready s b \<Longrightarrow> map_of (tasks (fold startIfReady ds s)) b = map_of (tasks s) b"
proof (induction ds arbitrary: s)
  case Nil
  show ?case by simp
next
  case (Cons x ds)
  show ?case
  proof (cases "x = b")
    case True
    with Cons.prems have "startIfReady x s = s" by (simp add: startIfReady_not_ready)
    with Cons show ?thesis by simp
  next
    case False
    with Cons show ?thesis by (simp add: startIfReady_other)
  qed
qed

lemma fold_startIfReady_ready:
  "b \<in> set ds \<Longrightarrow> map_of (tasks s) b = Some d \<Longrightarrow> canStartTask s (task d) \<Longrightarrow>
     \<exists>h. map_of (tasks (fold startIfReady ds s)) b = Some (started d (now s) h)"
proof (induction ds arbitrary: s d)
  case Nil
  then show ?case by simp
next
  case (Cons x ds)
  show ?case
  proof (cases "x = b")
    case True
    let ?s1 = "startIfReady x s"
    let ?d1 = "started d (now s) (nextHandle s)"
    from Cons.prems True have e: "map_of (tasks ?s1) b = Some ?d1"
      by (simp add: startIfReady_ready)
    show ?thesis
    proof (cases "b \<in> set ds")
      case False
      with e show ?thesis by (auto simp: fold_startIfReady_other)
    next
      case b: True
      have "canStartTask ?s1 (task ?d1)"
        using Cons.prems(3) by (simp add: canStartTask_def startIfReady_frame started_def)
      from Cons.IH[OF b e this] show ?thesis
        by (simp add: startIfReady_frame)
    qed
  next
    case False
    with Cons.prems have b: "b \<in> set ds" by simp
    from False Cons.prems have e: "map_of (tasks (startIfReady x s)) b = Some d"
      by (simp add: startIfReady_other)
    have "canStartTask (startIfReady x s) (task d)"
      using Cons.prems(3) by (simp add: canStartTask_def startIfReady_frame)
    from Cons.IH[OF b e this] show ?thesis by (simp add: startIfReady_frame)
  qed
qed

lemma nextHandle_startIfReady:
  "nextHandle (startIfReady x s) = (if ready s x then Suc (nextHandle s) else nextHandle s)"
  by (cases "map_of (tasks s) x") (simp_all add: startIfReady_def startTask_found ready_def)

lemma timers_startIfReady_exact:
  "timers (startIfReady x s) =
     timers s @ (if ready s x
                 then [(nextHandle s, FailTaskCb x (resourceTimeout (config s)),
                        resourceTimeout (config s))]
                 else [])"
  by (cases "map_of (tasks s) x") (simp_all add: startIfReady_def startTask_found ready_def)

lemma timers_fold_startIfReady_exact:
  "timers (fold startIfReady ds s) =
     timers s @ startedTimers (nextHandle s) (resourceTimeout (config s)) (filter (ready s) ds)
   \<and> nextHandle (fold startIfReady ds s) = nextHandle s + length (filter (ready s) ds)"
proof (induction ds arbitrary: s)
  case Nil
  show ?case by simp
next
  case (Cons x ds)
  have "ready (startIfReady x s) = ready s"
    by (rule ext) simp
  then have f: "filter (ready (startIfReady x s)) ds = filter (ready s) ds"
    by simp
  from Cons[of "startIfReady x s"] show ?case
    by (simp add: f timers_startIfReady_exact nextHandle_startIfReady startIfReady_frame)
qed

lemma timers_fold_startIfReady_mono:
  "set (timers s) \<subseteq> set (timers (fold startIfReady ds s))"
  using timers_fold_startIfReady_exact[of ds s] by simp

lemma fold_startIfReady_armed:
  "b \<in> set ds \<Longrightarrow> map_of (tasks s) b = Some d \<Longrightarrow> canStartTask s (task d) \<Longrightarrow>
     \<exists>h. map_of (tasks (fold startIfReady ds s)) b = Some (started d (now s) h)
       \<and> (h, FailTaskCb b (resourceTimeout (config s)), resourceTimeout (config s))
            \<in> set (timers (fold startIfReady ds s))"
proof (induction ds arbitrary: s d)
  case Nil
  then show ?case by simp
next
  case (Cons x ds)
  let ?s1 = "startIfReady x s"
  show ?case
  proof (cases "x = b")
    case True
    let ?d1 = "started d (now s) (nextHandle s)"
    from Cons.prems True have e: "map_of (tasks ?s1) b = Some ?d1"
      by (simp add: startIfReady_ready)
    from Cons.prems True have "ready s b" by (simp add: ready_def)
    with True have t: "(nextHandle s, FailTaskCb b (resourceTimeout (config s)),
        resourceTimeout (config s)) \<in> set (timers ?s1)"
      by (simp add: timers_startIfReady_exact)
    show ?thesis
    proof (cases "b \<in> set ds")
      case False
      with e t timers_fold_startIfReady_mono[of ?s1 ds] show ?thesis
        by (auto simp: fold_startIfReady_other)
    next
      case b: True
      have "canStartTask ?s1 (task ?d1)"
        using Cons.prems(3) by (simp add: canStartTask_def startIfReady_frame started_def)
      from Cons.IH[OF b e this] show ?thesis
        by (simp add: startIfReady_frame)
    qed
  next
    case False
    with Cons.prems have b: "b \<in> set ds" by simp
    from False Cons.prems have e: "map_of (tasks ?s1) b = Some d"
      by (simp add: startIfReady_other)
    have "canStartTask ?s1 (task d)"
      using Cons.prems(3) by (simp add: canStartTask_def startIfReady_frame)
    from Cons.IH[OF b e this] show ?thesis by (simp add: startIfReady_frame)
  qed
qed

lemma completeTask_found:
  assumes "map_of (tasks s) A = Some sch"
  shows "completeTask A r s =
    (None, fold startIfReady (dependentsOf s A) (completedState A r sch s))"
proof -
  have "clearTaskTimeout sch s = s\<lparr>timers := filter (\<lambda>t. Some (fst t) \<noteq> timeout sch) (timers s)\<rparr>"
    by (cases "timeout sch") (simp_all add: clearTaskTimeout_def clearTimeout_def)
  with assms show ?thesis
    by (simp add: completeTask_def Let_def completedState_def dependentsOf_def
        split: option.splits)
qed

lemma not_registered_index_remove: "\<not> registered (index_remove m k v) k v"
  by (simp add: registered_def index_remove_def update_conv' split: option.splits)

lemma activeIds_fold_startIfReady:
  "activeIds (fold startIfReady ds s) \<subseteq> activeIds s"
  using shrinks_fold[of startIfReady s ds, OF shrinks_startIfReady]
  by (simp add: shrinks_def)

lemma startedEvents_id:
  "TASK_STARTED b a \<in> set (startedEvents s x) \<Longrightarrow> x = b \<and> ready s b"
  by (cases "map_of (tasks s) x") (auto simp: startedEvents_def ready_def split: if_splits)

lemmas run_defs =
  exec_def assignTask_def completeTask_def failTask_def startTask_def setTimeout_def
  clearTaskTimeout_def clearTimeout_def index_add_def index_remove_def set_add_def
  registerDependency_def startIfReady_def canStartTask_def
  pendingTask_def newScheduler_def defaultConfig_def Let_def

lemma reassigned_value:
  "reassigned =
     \<lparr>tasks = [(''B'', runningTask ''B'' [''A''] ''agent-1'' 1),
               (''A'', runningTask ''A'' [] ''agent-1'' 2)],
      agentTasks = [(''agent-1'', [''B'', ''A''])],
      taskDependencies = [(''A'', [''B''])],
      completedTasks = [''A''],
      config = defaultConfig,
      emitted = [TASK_STARTED ''A'' ''agent-1'', TASK_STARTED ''B'' ''agent-1'',
                 TASK_STARTED ''A'' ''agent-1''],
      timers = [(1, FailTaskCb ''B'' 60000, 60000), (2, FailTaskCb ''A'' 60000, 60000)],
      nextHandle = 3, now = 0,
      dropped = [(runningTask ''A'' [] ''agent-1'' 0)
                   \<lparr>task := (task (runningTask ''A'' [] ''agent-1'' 0))
                      \<lparr>status := Completed, output' := Some ''done'', completedAt := Some 0\<rparr>\<rparr>]\<rparr>"
  by (simp add: reassigned_def runningTask_def run_defs)

subsection \<open>The cancellation cascade\<close>

lemma cascade_active: "x \<in> cascade s R \<Longrightarrow> x \<in> activeIds s"
  by (induction rule: cascade.induct) auto

lemma cascade_mono:
  assumes "x \<in> cascade s1 R1"
    and "taskDependencies s1 = taskDependencies s0"
    and "activeIds s1 \<subseteq> activeIds s0"
    and "R1 \<inter> activeIds s1 \<subseteq> cascade s0 R0"
  shows "x \<in> cascade s0 R0"
  using assms
proof (induction rule: cascade.induct)
  case (root x)
  then show ?case by auto
next
  case (dependent x d)
  then have "d \<in> set (dependentsOf s0 x)" by (simp add: dependentsOf_def)
  with dependent show ?case by (auto intro: cascade.dependent)
qed

lemma cascade_has_root: "x \<in> cascade s R \<Longrightarrow> \<exists>r. r \<in> R \<and> r \<in> activeIds s"
  by (induction rule: cascade.induct) auto

lemma cascade_inactive_root: "t \<notin> activeIds s \<Longrightarrow> cascade s {t} = {}"
  using cascade_has_root[of _ s "{t}"] by auto

lemma cascade_empty [simp]: "cascade s {} = {}"
  using cascade_has_root[of _ s "{}"] by auto

lemma cascade_root:
  assumes t: "t \<in> activeIds s0"
    and deps: "taskDependencies s1 = taskDependencies s0"
    and act: "activeIds s1 = activeIds s0 - {t}"
  shows "cascade s0 {t} = insert t (cascade s1 (set (dependentsOf s0 t)))"
proof (intro equalityI subsetI)
  fix x assume "x \<in> cascade s0 {t}"
  then show "x \<in> insert t (cascade s1 (set (dependentsOf s0 t)))"
  proof (induction rule: cascade.induct)
    case (root x)
    then show ?case by simp
  next
    case (dependent y d)
    show ?case
    proof (cases "d = t")
      case True
      then show ?thesis by simp
    next
      case False
      with dependent act have d1: "d \<in> activeIds s1" by simp
      from dependent.IH show ?thesis
      proof
        assume "y = t"
        with dependent d1 show ?thesis by (auto intro: cascade.root)
      next
        assume "y \<in> cascade s1 (set (dependentsOf s0 t))"
        moreover from dependent deps have "d \<in> set (dependentsOf s1 y)"
          by (simp add: dependentsOf_def)
        ultimately show ?thesis using d1 by (auto intro: cascade.dependent)
      qed
    qed
  qed
next
  fix x assume "x \<in> insert t (cascade s1 (set (dependentsOf s0 t)))"
  then show "x \<in> cascade s0 {t}"
  proof
    assume "x = t"
    with t show ?thesis by (auto intro: cascade.root)
  next
    assume "x \<in> cascade s1 (set (dependentsOf s0 t))"
    then show ?thesis
    proof (rule cascade_mono[OF _ deps])
      show "activeIds s1 \<subseteq> activeIds s0" using act by auto
      show "set (dependentsOf s0 t) \<inter> activeIds s1 \<subseteq> cascade s0 {t}"
        using t act by (auto intro: cascade.dependent cascade.root)
    qed
  qed
qed

lemma cascade_insert:
  assumes deps: "taskDependencies s1 = taskDependencies s0"
    and act: "activeIds s1 = activeIds s0 - cascade s0 {d}"
  shows "cascade s0 (insert d R) = cascade s0 {d} \<union> cascade s1 R"
proof (intro equalityI subsetI)
  fix x assume "x \<in> cascade s0 (insert d R)"
  then show "x \<in> cascade s0 {d} \<union> cascade s1 R"
  proof (induction rule: cascade.induct)
    case (root x)
    show ?case
    proof (cases "x \<in> cascade s0 {d}")
      case True
      then show ?thesis by simp
    next
      case False
      with root have "x \<noteq> d" by (auto intro: cascade.root)
      with root False act show ?thesis by (auto intro: cascade.root)
    qed
  next
    case (dependent y x)
    show ?case
    proof (cases "x \<in> cascade s0 {d}")
      case True
      then show ?thesis by simp
    next
      case False
      with dependent have "y \<notin> cascade s0 {d}" by (auto intro: cascade.dependent)
      with dependent.IH have y: "y \<in> cascade s1 R" by simp
      from dependent deps have "x \<in> set (dependentsOf s1 y)" by (simp add: dependentsOf_def)
      moreover from dependent False act have "x \<in> activeIds s1" by simp
      ultimately show ?thesis using y by (auto intro: cascade.dependent)
    qed
  qed
next
  fix x assume "x \<in> cascade s0 {d} \<union> cascade s1 R"
  then show "x \<in> cascade s0 (insert d R)"
  proof
    assume "x \<in> cascade s0 {d}"
    then show ?thesis
      by (rule cascade_mono) (auto intro: cascade.root)
  next
    assume "x \<in> cascade s1 R"
    then show ?thesis
    proof (rule cascade_mono[OF _ deps])
      show "activeIds s1 \<subseteq> activeIds s0" using act by auto
      show "R \<inter> activeIds s1 \<subseteq> cascade s0 (insert d R)"
        using act by (auto intro: cascade.root)
    qed
  qed
qed

lemma activeIds_cancelActive:
  "activeIds (cancelActive t sch r s) = activeIds s - {t}"
  by (simp add: activeIds_def tasks_cancelActive keys_delete)

lemma dependentsOf_cong:
  "taskDependencies s' = taskDependencies s \<Longrightarrow> dependentsOf s' = dependentsOf s"
  by (auto simp: dependentsOf_def fun_eq_iff)

lemma cancelDependentTasks_eq:
  "cancelDependentTasks t r s = cancelEach (dependentsOf s t) r s"
  by (simp add: cancelDependentTasks.simps dependentsOf_def split: option.splits)

lemma cancel_active_ids:
  "activeIds (cancelTask t r s) = activeIds s - cascade s {t}"
  "activeIds (cancelDependentTasks t r s) = activeIds s - cascade s (set (dependentsOf s t))"
  "activeIds (cancelEach ds r s) = activeIds s - cascade s (set ds)"
proof (induction t r s and t r s and ds r s
    rule: cancelTask_cancelDependentTasks_cancelEach.induct)
  case (1 taskId reason s)
  show ?case
  proof (cases "map_of (tasks s) taskId")
    case None
    then have "taskId \<notin> activeIds s"
      by (simp add: activeIds_def map_of_eq_None_iff)
    with None show ?thesis by (simp add: cancelTask.simps cascade_inactive_root)
  next
    case (Some sch)
    let ?s1 = "cancelActive taskId sch reason s"
    from Some have t: "taskId \<in> activeIds s"
      unfolding activeIds_def by (metis map_of_eq_None_iff option.distinct(1))
    have deps: "taskDependencies ?s1 = taskDependencies s"
      by (simp add: cancelActive_frame)
    have "cascade s {taskId} = insert taskId (cascade ?s1 (set (dependentsOf s taskId)))"
      by (rule cascade_root[OF t deps activeIds_cancelActive])
    moreover have "dependentsOf ?s1 = dependentsOf s"
      by (rule dependentsOf_cong[OF deps])
    ultimately show ?thesis
      using 1[OF Some] Some by (auto simp: cancelTask.simps activeIds_cancelActive)
  qed
next
  case (2 taskId reason s)
  then show ?case
    by (simp add: cancelDependentTasks.simps dependentsOf_def split: option.splits)
next
  case (3 reason s)
  show ?case by simp
next
  case (4 d rest reason s)
  let ?s1 = "cancelTask d reason s"
  have deps: "taskDependencies ?s1 = taskDependencies s"
    using cancel_frame(1)[of d reason s] by simp
  have "cascade s (insert d (set rest)) = cascade s {d} \<union> cascade ?s1 (set rest)"
    by (rule cascade_insert[OF deps "4.IH"(1)])
  with 4 show ?case by auto
qed

lemma extends_refl: "extends s s"
  by (auto simp: extends_def activeIds_def)

lemma extends_active: "extends s s' \<Longrightarrow> activeIds s' \<subseteq> activeIds s"
proof -
  assume "extends s s'"
  then have "tasks s' = filter (\<lambda>e. fst e \<in> activeIds s') (tasks s)"
    by (simp add: extends_def)
  then have "set (tasks s') \<subseteq> set (tasks s)"
    by (metis filter_is_subset)
  then show ?thesis by (auto simp: activeIds_def)
qed

lemma extends_trans:
  assumes "extends s s1" and "extends s1 s2"
  shows "extends s s2"
proof -
  from assms(2) have sub: "activeIds s2 \<subseteq> activeIds s1" by (rule extends_active)
  from assms have "tasks s2 = filter (\<lambda>e. fst e \<in> activeIds s2)
      (filter (\<lambda>e. fst e \<in> activeIds s1) (tasks s))"
    by (simp add: extends_def)
  also have "\<dots> = filter (\<lambda>e. fst e \<in> activeIds s2) (tasks s)"
    using sub by (auto intro: filter_cong)
  finally have t: "tasks s2 = filter (\<lambda>e. fst e \<in> activeIds s2) (tasks s)" .
  from assms obtain es1 es2 os1 os2 where
    "emitted s1 = emitted s @ es1" "emitted s2 = emitted s1 @ es2"
    "dropped s1 = dropped s @ os1" "dropped s2 = dropped s1 @ os2"
    by (auto simp: extends_def)
  then have "emitted s2 = emitted s @ (es1 @ es2)" "dropped s2 = dropped s @ (os1 @ os2)"
    by simp_all
  then have a: "\<exists>es. emitted s2 = emitted s @ es" and b: "\<exists>os. dropped s2 = dropped s @ os"
    by blast+
  from assms have c: "set (timers s2) \<subseteq> set (timers s)"
    and d: "\<forall>a v. registered (agentTasks s2) a v \<longrightarrow> registered (agentTasks s) a v"
    and e: "now s2 = now s"
    by (auto simp: extends_def)
  from a b c d t e show ?thesis
    unfolding extends_def by (intro conjI)
qed

lemma emittedSince_trans:
  assumes "extends s s1" and "extends s1 s2"
  shows "emittedSince s s2 = emittedSince s s1 @ emittedSince s1 s2"
proof -
  from assms obtain es1 es2 where
    "emitted s1 = emitted s @ es1" "emitted s2 = emitted s1 @ es2"
    by (auto simp: extends_def)
  then show ?thesis by (simp add: emittedSince_def)
qed

lemma droppedSince_trans:
  assumes "extends s s1" and "extends s1 s2"
  shows "droppedSince s s2 = droppedSince s s1 @ droppedSince s1 s2"
proof -
  from assms obtain os1 os2 where
    "dropped s1 = dropped s @ os1" "dropped s2 = dropped s1 @ os2"
    by (auto simp: extends_def)
  then show ?thesis by (simp add: droppedSince_def)
qed

lemma registered_index_remove:
  "registered (index_remove m k v) a x \<Longrightarrow> registered m a x"
  by (auto simp: registered_def index_remove_def update_conv' split: option.splits if_splits)

lemma cancelActive_fields:
  "emitted (cancelActive t sch r s) = emitted s @ [TASK_CANCELLED t r]"
  "dropped (cancelActive t sch r s) = dropped s @ [cancelledObj sch (now s)]"
  "timers (cancelActive t sch r s) = filter (\<lambda>x. Some (fst x) \<noteq> timeout sch) (timers s)"
  "agentTasks (cancelActive t sch r s) = index_remove (agentTasks s) (agentId sch) t"
  "tasks (cancelActive t sch r s) = AList.delete t (tasks s)"
  by (cases "timeout sch";
      simp add: cancelActive_def Let_def clearTaskTimeout_def clearTimeout_def cancelledObj_def)+

lemma delete_as_filter:
  "AList.delete t al = filter (\<lambda>e. fst e \<in> fst ` set al - {t}) al"
  by (induction al) (auto simp: AList.delete_eq intro!: filter_cong)

lemma extends_cancelActive: "extends s (cancelActive t sch r s)"
proof -
  let ?s1 = "cancelActive t sch r s"
  have "tasks ?s1 = filter (\<lambda>e. fst e \<in> activeIds s - {t}) (tasks s)"
    unfolding activeIds_def cancelActive_fields by (rule delete_as_filter)
  then have "tasks ?s1 = filter (\<lambda>e. fst e \<in> activeIds ?s1) (tasks s)"
    by (simp only: activeIds_cancelActive)
  moreover have "set (timers ?s1) \<subseteq> set (timers s)"
    by (auto simp: cancelActive_fields)
  moreover have "\<forall>a v. registered (agentTasks ?s1) a v \<longrightarrow> registered (agentTasks s) a v"
    by (auto simp: cancelActive_fields dest: registered_index_remove)
  ultimately show ?thesis
    unfolding extends_def by (simp add: cancelActive_fields cancelActive_frame)
qed

lemma gone_cancelActive:
  "gone s (cancelActive t sch r s) t sch"
  by (auto simp: gone_def activeIds_cancelActive cancelActive_fields droppedSince_def
      not_registered_index_remove split: option.splits)

lemma gone_extends:
  assumes "gone s s1 x sch" and "extends s s1" and "extends s1 s2"
  shows "gone s s2 x sch"
proof -
  from assms(3) have "activeIds s2 \<subseteq> activeIds s1" by (rule extends_active)
  moreover have "set (droppedSince s s1) \<subseteq> set (droppedSince s s2)"
    by (simp add: droppedSince_trans[OF assms(2,3)])
  moreover from assms(3) have "set (timers s2) \<subseteq> set (timers s1)"
    and "\<And>a v. registered (agentTasks s2) a v \<Longrightarrow> registered (agentTasks s1) a v"
    by (auto simp: extends_def)
  ultimately show ?thesis
    using assms(1) by (auto simp: gone_def split: option.splits)
qed

lemma gone_later:
  assumes "gone s1 s2 x sch" and "extends s s1" and "extends s1 s2"
  shows "gone s s2 x sch"
proof -
  have "set (droppedSince s1 s2) \<subseteq> set (droppedSince s s2)"
    by (simp add: droppedSince_trans[OF assms(2,3)])
  moreover from assms(2) have "now s1 = now s" by (simp add: extends_def)
  ultimately show ?thesis using assms(1) by (auto simp: gone_def)
qed

lemma cancel_extends:
  "extends s (cancelTask t r s)"
  "extends s (cancelDependentTasks t r s)"
  "extends s (cancelEach ds r s)"
proof (induction t r s and t r s and ds r s
    rule: cancelTask_cancelDependentTasks_cancelEach.induct)
  case (1 taskId reason s)
  show ?case
  proof (cases "map_of (tasks s) taskId")
    case None
    then show ?thesis by (simp add: cancelTask.simps extends_refl)
  next
    case (Some sch)
    from extends_trans[OF extends_cancelActive 1[OF Some]] Some
    show ?thesis by (simp add: cancelTask.simps)
  qed
next
  case (2 taskId reason s)
  then show ?case
    by (simp add: cancelDependentTasks.simps extends_refl split: option.splits)
next
  case (3 reason s)
  show ?case by (simp add: extends_refl)
next
  case (4 d rest reason s)
  from extends_trans[OF 4(1) 4(2)] show ?case by simp
qed

lemma extends_lookup:
  assumes "extends s s'" and "x \<in> activeIds s'"
  shows "map_of (tasks s') x = map_of (tasks s) x"
proof -
  from assms(1) have t: "tasks s' = filter (\<lambda>e. fst e \<in> activeIds s') (tasks s)"
    by (simp add: extends_def)
  have "map_of (filter (\<lambda>e. fst e \<in> A) al) x = map_of al x" if "x \<in> A" for A and al :: "(string \<times> ScheduledTask) list"
    using that by (induction al) auto
  from this[OF assms(2)] t show ?thesis by simp
qed

lemma cancel_gone:
  "map_of (tasks s) x = Some schx \<Longrightarrow> x \<notin> activeIds (cancelTask t r s)
     \<Longrightarrow> gone s (cancelTask t r s) x schx"
  "map_of (tasks s) x = Some schx \<Longrightarrow> x \<notin> activeIds (cancelDependentTasks t r s)
     \<Longrightarrow> gone s (cancelDependentTasks t r s) x schx"
  "map_of (tasks s) x = Some schx \<Longrightarrow> x \<notin> activeIds (cancelEach ds r s)
     \<Longrightarrow> gone s (cancelEach ds r s) x schx"
proof (induction t r s and t r s and ds r s arbitrary: x schx and x schx and x schx
    rule: cancelTask_cancelDependentTasks_cancelEach.induct)
  case (1 taskId reason s)
  from "1.prems"(1) have xa: "x \<in> activeIds s"
    unfolding activeIds_def by (metis map_of_eq_None_iff option.distinct(1))
  show ?case
  proof (cases "map_of (tasks s) taskId")
    case None
    with "1.prems" xa show ?thesis by (simp add: cancelTask.simps)
  next
    case (Some sch)
    let ?s1 = "cancelActive taskId sch reason s"
    let ?s2 = "cancelDependentTasks taskId ''Parent task cancelled'' ?s1"
    have eq: "cancelTask taskId reason s = ?s2"
      using Some by (simp add: cancelTask.simps)
    have e1: "extends s ?s1" by (rule extends_cancelActive)
    have e2: "extends ?s1 ?s2" by (rule cancel_extends)
    show ?thesis
    proof (cases "x = taskId")
      case True
      with Some "1.prems" have "schx = sch" by simp
      with True gone_extends[OF gone_cancelActive e1 e2] show ?thesis
        by (simp add: eq)
    next
      case False
      with "1.prems"(1) have "map_of (tasks ?s1) x = Some schx"
        by (simp add: cancelActive_fields)
      moreover from "1.prems"(2) have "x \<notin> activeIds ?s2" by (simp add: eq)
      ultimately have "gone ?s1 ?s2 x schx" by (rule "1.IH"[OF Some])
      from gone_later[OF this e1 e2] show ?thesis by (simp add: eq)
    qed
  qed
next
  case (2 taskId reason s)
  from "2.prems"(1) have xa: "x \<in> activeIds s"
    unfolding activeIds_def by (metis map_of_eq_None_iff option.distinct(1))
  show ?case
  proof (cases "map_of (taskDependencies s) taskId")
    case None
    with "2.prems" xa show ?thesis by (simp add: cancelDependentTasks.simps)
  next
    case (Some ds)
    with "2.IH"[OF Some "2.prems"(1)] "2.prems"(2) show ?thesis
      by (simp add: cancelDependentTasks.simps)
  qed
next
  case (3 reason s)
  from "3.prems"(1) have "x \<in> activeIds s"
    unfolding activeIds_def by (metis map_of_eq_None_iff option.distinct(1))
  with "3.prems"(2) show ?case by simp
next
  case (4 d rest reason s)
  let ?s1 = "cancelTask d reason s"
  let ?s2 = "cancelEach rest reason ?s1"
  have e1: "extends s ?s1" and e2: "extends ?s1 ?s2" by (rule cancel_extends)+
  show ?case
  proof (cases "x \<in> activeIds ?s1")
    case False
    from "4.IH"(1)[OF "4.prems"(1) False] have "gone s ?s1 x schx" .
    from gone_extends[OF this e1 e2] show ?thesis by simp
  next
    case True
    with "4.prems"(1) have "map_of (tasks ?s1) x = Some schx"
      by (simp add: extends_lookup[OF e1])
    moreover from "4.prems"(2) have "x \<notin> activeIds ?s2" by simp
    ultimately have "gone ?s1 ?s2 x schx" by (rule "4.IH"(2))
    from gone_later[OF this e1 e2] show ?thesis by simp
  qed
qed

lemma announced_refl: "announced s s reason"
  by (simp add: announced_def emittedSince_def)

lemma announced_trans:
  assumes "announced s s1 reason" and "announced s1 s2 reason"
    and e1: "extends s s1" and e2: "extends s1 s2"
  shows "announced s s2 reason"
proof -
  have sub1: "activeIds s1 \<subseteq> activeIds s" and sub2: "activeIds s2 \<subseteq> activeIds s1"
    using e1 e2 by (auto dest: extends_active)
  have ev: "set (emittedSince s s2) = set (emittedSince s s1) \<union> set (emittedSince s1 s2)"
    by (simp add: emittedSince_trans[OF e1 e2])
  show ?thesis
    unfolding announced_def
  proof (intro conjI ballI allI impI)
    fix e assume "e \<in> set (emittedSince s s2)"
    then consider "e \<in> set (emittedSince s s1)" | "e \<in> set (emittedSince s1 s2)"
      unfolding ev by blast
    then show "\<exists>x. x \<in> activeIds s \<and> x \<notin> activeIds s2
           \<and> (e = TASK_CANCELLED x reason \<or> e = TASK_CANCELLED x ''Parent task cancelled'')"
    proof cases
      case 1
      with assms(1) obtain x where "x \<in> activeIds s" "x \<notin> activeIds s1"
        "e = TASK_CANCELLED x reason \<or> e = TASK_CANCELLED x ''Parent task cancelled''"
        unfolding announced_def by blast
      with sub2 show ?thesis by blast
    next
      case 2
      with assms(2) obtain x where "x \<in> activeIds s1" "x \<notin> activeIds s2"
        "e = TASK_CANCELLED x reason \<or> e = TASK_CANCELLED x ''Parent task cancelled''"
        unfolding announced_def by blast
      with sub1 show ?thesis by blast
    qed
  next
    fix x assume x: "x \<in> activeIds s \<and> x \<notin> activeIds s2"
    show "TASK_CANCELLED x reason \<in> set (emittedSince s s2)
            \<or> TASK_CANCELLED x ''Parent task cancelled'' \<in> set (emittedSince s s2)"
    proof (cases "x \<in> activeIds s1")
      case False
      with x assms(1) show ?thesis unfolding announced_def ev by blast
    next
      case True
      with x assms(2) show ?thesis unfolding announced_def ev by blast
    qed
  qed
qed

lemma emittedSince_cancelActive:
  assumes "extends (cancelActive t sch r s) s'"
  shows "emittedSince s s' = TASK_CANCELLED t r # emittedSince (cancelActive t sch r s) s'"
proof -
  from assms obtain es where "emitted s' = emitted (cancelActive t sch r s) @ es"
    by (auto simp: extends_def)
  then show ?thesis by (simp add: emittedSince_def cancelActive_fields)
qed

lemma cancel_announced:
  "announced s (cancelTask t r s) r"
  "announced s (cancelDependentTasks t r s) r"
  "announced s (cancelEach ds r s) r"
proof (induction t r s and t r s and ds r s
    rule: cancelTask_cancelDependentTasks_cancelEach.induct)
  case (1 taskId reason s)
  show ?case
  proof (cases "map_of (tasks s) taskId")
    case None
    then show ?thesis by (simp add: cancelTask.simps announced_refl)
  next
    case (Some sch)
    let ?s1 = "cancelActive taskId sch reason s"
    let ?s2 = "cancelDependentTasks taskId ''Parent task cancelled'' ?s1"
    have eq: "cancelTask taskId reason s = ?s2"
      using Some by (simp add: cancelTask.simps)
    have e2: "extends ?s1 ?s2" by (rule cancel_extends)
    have ev: "emittedSince s ?s2 = TASK_CANCELLED taskId reason # emittedSince ?s1 ?s2"
      by (rule emittedSince_cancelActive[OF e2])
    from Some have ta: "taskId \<in> activeIds s"
      unfolding activeIds_def by (metis map_of_eq_None_iff option.distinct(1))
    have a1: "activeIds ?s1 = activeIds s - {taskId}" by (rule activeIds_cancelActive)
    from extends_active[OF e2] a1 have tn: "taskId \<notin> activeIds ?s2" by auto
    have ih: "announced ?s1 ?s2 ''Parent task cancelled''" by (rule 1[OF Some])
    have "announced s ?s2 reason"
      unfolding announced_def
    proof (intro conjI ballI allI impI)
      fix e assume "e \<in> set (emittedSince s ?s2)"
      then consider "e = TASK_CANCELLED taskId reason" | "e \<in> set (emittedSince ?s1 ?s2)"
        unfolding ev by auto
      then show "\<exists>x. x \<in> activeIds s \<and> x \<notin> activeIds ?s2
           \<and> (e = TASK_CANCELLED x reason \<or> e = TASK_CANCELLED x ''Parent task cancelled'')"
      proof cases
        case 1
        with ta tn show ?thesis by blast
      next
        case 2
        with ih obtain x where "x \<in> activeIds ?s1" "x \<notin> activeIds ?s2"
          "e = TASK_CANCELLED x ''Parent task cancelled''"
          unfolding announced_def by blast
        with a1 show ?thesis by blast
      qed
    next
      fix x assume x: "x \<in> activeIds s \<and> x \<notin> activeIds ?s2"
      show "TASK_CANCELLED x reason \<in> set (emittedSince s ?s2)
            \<or> TASK_CANCELLED x ''Parent task cancelled'' \<in> set (emittedSince s ?s2)"
      proof (cases "x = taskId")
        case True
        then show ?thesis unfolding ev by simp
      next
        case False
        with x a1 have "x \<in> activeIds ?s1 \<and> x \<notin> activeIds ?s2" by simp
        with ih have "TASK_CANCELLED x ''Parent task cancelled'' \<in> set (emittedSince ?s1 ?s2)"
          unfolding announced_def by blast
        then show ?thesis unfolding ev by simp
      qed
    qed
    then show ?thesis by (simp add: eq)
  qed
next
  case (2 taskId reason s)
  then show ?case
    by (simp add: cancelDependentTasks.simps announced_refl split: option.splits)
next
  case (3 reason s)
  show ?case by (simp add: announced_refl)
next
  case (4 d rest reason s)
  have "announced s (cancelEach rest reason (cancelTask d reason s)) reason"
    by (rule announced_trans[OF 4(1) 4(2)]) (rule cancel_extends)+
  then show ?case by simp
qed

lemma fanout_value:
  "fanout =
     \<lparr>tasks = [(''B'', runningTask ''B'' [''A''] ''agent-1'' 1),
               (''C'', runningTask ''C'' [''A''] ''agent-2'' 2),
               (''A'', runningTask ''A'' [] ''agent-1'' 3)],
      agentTasks = [(''agent-1'', [''B'', ''A'']), (''agent-2'', [''C''])],
      taskDependencies = [(''A'', [''B'', ''C''])],
      completedTasks = [''A''],
      config = defaultConfig,
      emitted = [TASK_STARTED ''A'' ''agent-1'', TASK_STARTED ''B'' ''agent-1'',
                 TASK_STARTED ''C'' ''agent-2'', TASK_STARTED ''A'' ''agent-1''],
      timers = [(1, FailTaskCb ''B'' 60000, 60000), (2, FailTaskCb ''C'' 60000, 60000),
                (3, FailTaskCb ''A'' 60000, 60000)],
      nextHandle = 4, now = 0,
      dropped = [(runningTask ''A'' [] ''agent-1'' 0)
                   \<lparr>task := (task (runningTask ''A'' [] ''agent-1'' 0))
                      \<lparr>status := Completed, output' := Some ''done'', completedAt := Some 0\<rparr>\<rparr>]\<rparr>"
  by (simp add: fanout_def runningTask_def run_defs)

lemma lookup_active: "map_of (tasks s) t = Some sch \<Longrightarrow> t \<in> activeIds s"
  unfolding activeIds_def by (metis map_of_eq_None_iff option.distinct(1))

lemma cascade_lookup: "x \<in> cascade s R \<Longrightarrow> \<exists>sch. map_of (tasks s) x = Some sch"
proof -
  assume "x \<in> cascade s R"
  then have "x \<in> fst ` set (tasks s)"
    using cascade_active by (simp add: activeIds_def)
  then show ?thesis
    by (metis map_of_eq_None_iff not_Some_eq)
qed

lemma cancelTask_found:
  "map_of (tasks s) t = Some sch \<Longrightarrow>
     cancelTask t r s = cancelEach (dependentsOf s t) ''Parent task cancelled'' (cancelActive t sch r s)"
  by (simp add: cancelTask.simps cancelDependentTasks_eq
      dependentsOf_cong[OF cancelActive_frame(2)])

lemma cancelTask_events:
  assumes "map_of (tasks s) t = Some sch"
  shows "\<exists>es. emittedSince s (cancelTask t r s) = TASK_CANCELLED t r # es
     \<and> (\<forall>e \<in> set es. \<exists>x. x \<in> cascade s {t} \<and> x \<noteq> t
            \<and> e = TASK_CANCELLED x ''Parent task cancelled'')
     \<and> (\<forall>x. x \<in> cascade s {t} \<and> x \<noteq> t \<longrightarrow> TASK_CANCELLED x ''Parent task cancelled'' \<in> set es)"
proof -
  let ?s1 = "cancelActive t sch r s"
  let ?s2 = "cancelEach (dependentsOf s t) ''Parent task cancelled'' ?s1"
  have eq: "cancelTask t r s = ?s2" by (rule cancelTask_found[OF assms])
  have e2: "extends ?s1 ?s2" by (rule cancel_extends)
  have ev: "emittedSince s ?s2 = TASK_CANCELLED t r # emittedSince ?s1 ?s2"
    by (rule emittedSince_cancelActive[OF e2])
  have an: "announced ?s1 ?s2 ''Parent task cancelled''" by (rule cancel_announced)
  have a1: "activeIds ?s1 = activeIds s - {t}" by (rule activeIds_cancelActive)
  have a2: "activeIds ?s2 = activeIds s - cascade s {t}"
    using cancel_active_ids(1)[of t r s] by (simp add: eq)
  have rem: "x \<in> activeIds ?s1 \<and> x \<notin> activeIds ?s2 \<longleftrightarrow> x \<in> cascade s {t} \<and> x \<noteq> t" for x
    using a1 a2 cascade_active[of x s "{t}"] by auto
  show ?thesis
  proof (intro exI[of _ "emittedSince ?s1 ?s2"] conjI ballI allI impI)
    show "emittedSince s (cancelTask t r s) = TASK_CANCELLED t r # emittedSince ?s1 ?s2"
      by (simp add: eq ev)
  next
    fix e assume "e \<in> set (emittedSince ?s1 ?s2)"
    with an obtain x where "x \<in> activeIds ?s1 \<and> x \<notin> activeIds ?s2"
      "e = TASK_CANCELLED x ''Parent task cancelled''"
      unfolding announced_def by blast
    with rem show "\<exists>x. x \<in> cascade s {t} \<and> x \<noteq> t
            \<and> e = TASK_CANCELLED x ''Parent task cancelled''" by blast
  next
    fix x assume "x \<in> cascade s {t} \<and> x \<noteq> t"
    with rem have "x \<in> activeIds ?s1 \<and> x \<notin> activeIds ?s2" by blast
    with an show "TASK_CANCELLED x ''Parent task cancelled'' \<in> set (emittedSince ?s1 ?s2)"
      unfolding announced_def by blast
  qed
qed

lemma cancelTask_tasks:
  "tasks (cancelTask t r s) = filter (\<lambda>e. fst e \<notin> cascade s {t}) (tasks s)"
proof -
  have "extends s (cancelTask t r s)" by (rule cancel_extends)
  then have "tasks (cancelTask t r s) = filter (\<lambda>e. fst e \<in> activeIds (cancelTask t r s)) (tasks s)"
    by (simp add: extends_def)
  also have "\<dots> = filter (\<lambda>e. fst e \<notin> cascade s {t}) (tasks s)"
  proof (rule filter_cong[OF refl])
    fix e assume "e \<in> set (tasks s)"
    then have "fst e \<in> activeIds s" by (simp add: activeIds_def)
    then show "(fst e \<in> activeIds (cancelTask t r s)) = (fst e \<notin> cascade s {t})"
      by (simp add: cancel_active_ids(1))
  qed
  finally show ?thesis .
qed

subsection \<open>Failure and retry\<close>

lemma clearTaskTimeout_eq:
  "clearTaskTimeout sch s = s\<lparr>timers := filter (\<lambda>t. Some (fst t) \<noteq> timeout sch) (timers s)\<rparr>"
  by (cases "timeout sch") (simp_all add: clearTaskTimeout_def clearTimeout_def)

lemma failTask_retry:
  assumes "map_of (tasks s) t = Some sch" and "attempts sch + 1 < maxRetries (config s)"
  shows "failTask t err s = (None, retryState t sch s)"
  using assms
  by (simp add: failTask_def Let_def clearTaskTimeout_eq setTimeout_def retryState_def)

lemma failTask_terminal:
  assumes "map_of (tasks s) t = Some sch" and "\<not> attempts sch + 1 < maxRetries (config s)"
  shows "failTask t err s =
    (None, cancelEach (dependentsOf s t) ''Parent task failed'' (failedState t err sch s))"
proof -
  have "dependentsOf (failedState t err sch s) = dependentsOf s"
    by (rule dependentsOf_cong) (simp add: failedState_def)
  with assms show ?thesis
    by (simp add: failTask_def Let_def clearTaskTimeout_eq failedState_def failedObj_def
        cancelDependentTasks_eq)
qed

lemma cancelTask_removed:
  "x \<in> activeIds s \<and> x \<notin> activeIds (cancelTask d r s) \<longleftrightarrow> x \<in> cascade s {d}"
  using cascade_active[of x s "{d}"] by (auto simp: cancel_active_ids(1))

lemma cancelTask_reasons:
  "(\<forall>e \<in> set (emittedSince s (cancelTask d r s)).
      \<exists>x. x \<in> cascade s {d}
        \<and> e = TASK_CANCELLED x (if x = d then r else ''Parent task cancelled''))
   \<and> (\<forall>x. x \<in> cascade s {d} \<longrightarrow>
         TASK_CANCELLED x (if x = d then r else ''Parent task cancelled'')
           \<in> set (emittedSince s (cancelTask d r s)))"
proof (cases "map_of (tasks s) d")
  case None
  then have "cancelTask d r s = s" by (simp add: cancelTask.simps)
  moreover from None have "d \<notin> activeIds s"
    by (simp add: activeIds_def map_of_eq_None_iff)
  then have "cascade s {d} = {}" by (rule cascade_inactive_root)
  ultimately show ?thesis by (simp add: emittedSince_def)
next
  case (Some sch)
  from cancelTask_events[OF Some, of r] obtain es where
    es: "emittedSince s (cancelTask d r s) = TASK_CANCELLED d r # es"
    "\<forall>e \<in> set es. \<exists>x. x \<in> cascade s {d} \<and> x \<noteq> d
          \<and> e = TASK_CANCELLED x ''Parent task cancelled''"
    "\<forall>x. x \<in> cascade s {d} \<and> x \<noteq> d \<longrightarrow> TASK_CANCELLED x ''Parent task cancelled'' \<in> set es"
    by blast
  from lookup_active[OF Some] have root: "d \<in> cascade s {d}" by (auto intro: cascade.root)
  show ?thesis
  proof (intro conjI ballI allI impI)
    fix e assume "e \<in> set (emittedSince s (cancelTask d r s))"
    with es(1) have "e = TASK_CANCELLED d r \<or> e \<in> set es" by simp
    then show "\<exists>x. x \<in> cascade s {d}
        \<and> e = TASK_CANCELLED x (if x = d then r else ''Parent task cancelled'')"
    proof
      assume "e = TASK_CANCELLED d r"
      with root show ?thesis by (intro exI[of _ d]) simp
    next
      assume "e \<in> set es"
      with es(2) obtain x where "x \<in> cascade s {d}" "x \<noteq> d"
        "e = TASK_CANCELLED x ''Parent task cancelled''" by blast
      then show ?thesis by (intro exI[of _ x]) simp
    qed
  next
    fix x assume "x \<in> cascade s {d}"
    with es(1,3) show "TASK_CANCELLED x (if x = d then r else ''Parent task cancelled'')
        \<in> set (emittedSince s (cancelTask d r s))"
      by (cases "x = d") simp_all
  qed
qed

lemma foundActive_subset: "foundActive s ds \<subseteq> set ds \<inter> activeIds s"
  by (auto simp: foundActive_def)

lemma foundActive_first:
  assumes "x \<in> cascade s {d}"
  shows "x \<in> foundActive s (d # rest) \<longleftrightarrow> x = d"
proof
  assume "x \<in> foundActive s (d # rest)"
  then obtain i where i: "i < length (d # rest)" "(d # rest) ! i = x"
    "x \<notin> cascade s (set (take i (d # rest)))"
    by (auto simp: foundActive_def)
  show "x = d"
  proof (cases i)
    case 0
    with i show ?thesis by simp
  next
    case (Suc j)
    have "cascade s {d} \<subseteq> cascade s (set (take i (d # rest)))"
    proof
      fix y assume "y \<in> cascade s {d}"
      then show "y \<in> cascade s (set (take i (d # rest)))"
        by (rule cascade_mono) (auto simp: Suc intro: cascade.root)
    qed
    with assms i(3) show ?thesis by blast
  qed
next
  assume "x = d"
  moreover from assms have "x \<in> activeIds s" by (rule cascade_active)
  ultimately show "x \<in> foundActive s (d # rest)"
    unfolding foundActive_def by (auto intro!: exI[of _ 0])
qed

lemma foundActive_rest:
  assumes deps: "taskDependencies s1 = taskDependencies s"
    and act: "activeIds s1 = activeIds s - cascade s {d}"
    and x: "x \<in> activeIds s1"
  shows "x \<in> foundActive s (d # rest) \<longleftrightarrow> x \<in> foundActive s1 rest"
proof -
  have split: "cascade s (insert d R) = cascade s {d} \<union> cascade s1 R" for R
    by (rule cascade_insert[OF deps act])
  from x act have xs: "x \<in> activeIds s" "x \<notin> cascade s {d}" by auto
  then have "x \<noteq> d" by (auto intro: cascade.root)
  show ?thesis
  proof
    assume "x \<in> foundActive s (d # rest)"
    then obtain i where i: "i < length (d # rest)" "(d # rest) ! i = x"
      "x \<notin> cascade s (set (take i (d # rest)))"
      by (auto simp: foundActive_def)
    from i(2) \<open>x \<noteq> d\<close> obtain j where j: "i = Suc j" by (cases i) auto
    with i have "j < length rest" "rest ! j = x"
      "x \<notin> cascade s (insert d (set (take j rest)))" by simp_all
    with split[of "set (take j rest)"] x show "x \<in> foundActive s1 rest"
      unfolding foundActive_def by auto
  next
    assume "x \<in> foundActive s1 rest"
    then obtain j where j: "j < length rest" "rest ! j = x"
      "x \<notin> cascade s1 (set (take j rest))"
      by (auto simp: foundActive_def)
    with split[of "set (take j rest)"] xs
    have "x \<notin> cascade s (set (take (Suc j) (d # rest)))" by simp
    with j xs(1) show "x \<in> foundActive s (d # rest)"
      unfolding foundActive_def by (intro CollectI exI[of _ "Suc j"]) simp
  qed
qed

lemma cancelEach_reasons:
  "(\<forall>e \<in> set (emittedSince s (cancelEach ds r s)).
      \<exists>x. x \<in> cascade s (set ds) \<and> e = TASK_CANCELLED x (cascadeReason s ds r x))
   \<and> (\<forall>x. x \<in> cascade s (set ds) \<longrightarrow>
         TASK_CANCELLED x (cascadeReason s ds r x) \<in> set (emittedSince s (cancelEach ds r s)))"
proof (induction ds arbitrary: s)
  case Nil
  show ?case by (simp add: emittedSince_def)
next
  case (Cons d rest)
  let ?s1 = "cancelTask d r s"
  let ?s2 = "cancelEach rest r ?s1"
  have e1: "extends s ?s1" and e2: "extends ?s1 ?s2" by (rule cancel_extends)+
  have ev: "set (emittedSince s ?s2) = set (emittedSince s ?s1) \<union> set (emittedSince ?s1 ?s2)"
    by (simp add: emittedSince_trans[OF e1 e2])
  have deps: "taskDependencies ?s1 = taskDependencies s"
    using cancel_frame(1)[of d r s] by simp
  have act: "activeIds ?s1 = activeIds s - cascade s {d}"
    by (rule cancel_active_ids(1))
  have split: "cascade s (set (d # rest)) = cascade s {d} \<union> cascade ?s1 (set rest)"
    using cascade_insert[OF deps act, of "set rest"] by simp
  have r1: "cascadeReason s (d # rest) r x = (if x = d then r else ''Parent task cancelled'')"
    if "x \<in> cascade s {d}" for x
    using foundActive_first[OF that, of rest] by (auto simp: cascadeReason_def)
  have r2: "cascadeReason s (d # rest) r x = cascadeReason ?s1 rest r x"
    if "x \<in> cascade ?s1 (set rest)" for x
    using foundActive_rest[OF deps act cascade_active[OF that], of rest]
    by (simp add: cascadeReason_def)
  note first = cancelTask_reasons[of s d r]
  note ih = Cons.IH[of ?s1]
  have "(\<forall>e \<in> set (emittedSince s ?s2).
      \<exists>x. x \<in> cascade s (set (d # rest))
        \<and> e = TASK_CANCELLED x (cascadeReason s (d # rest) r x))
   \<and> (\<forall>x. x \<in> cascade s (set (d # rest)) \<longrightarrow>
         TASK_CANCELLED x (cascadeReason s (d # rest) r x) \<in> set (emittedSince s ?s2))"
  proof (intro conjI ballI allI impI)
    fix e assume "e \<in> set (emittedSince s ?s2)"
    then consider "e \<in> set (emittedSince s ?s1)" | "e \<in> set (emittedSince ?s1 ?s2)"
      unfolding ev by blast
    then show "\<exists>x. x \<in> cascade s (set (d # rest))
        \<and> e = TASK_CANCELLED x (cascadeReason s (d # rest) r x)"
    proof cases
      case 1
      with first obtain x where x: "x \<in> cascade s {d}"
        "e = TASK_CANCELLED x (if x = d then r else ''Parent task cancelled'')" by blast
      with r1[OF x(1)] split show ?thesis by (intro exI[of _ x]) simp
    next
      case 2
      with ih obtain x where x: "x \<in> cascade ?s1 (set rest)"
        "e = TASK_CANCELLED x (cascadeReason ?s1 rest r x)" by blast
      with r2[OF x(1)] split show ?thesis by (intro exI[of _ x]) simp
    qed
  next
    fix x assume "x \<in> cascade s (set (d # rest))"
    then consider "x \<in> cascade s {d}" | "x \<in> cascade ?s1 (set rest)"
      unfolding split by blast
    then show "TASK_CANCELLED x (cascadeReason s (d # rest) r x) \<in> set (emittedSince s ?s2)"
    proof cases
      case 1
      with first r1[OF 1] show ?thesis unfolding ev by simp
    next
      case 2
      with ih r2[OF 2] show ?thesis unfolding ev by simp
    qed
  qed
  then show ?case by simp
qed

lemma chain_value:
  "chain =
     \<lparr>tasks = [(''C'', runningTask ''C'' [''B''] ''agent-1'' 2),
               (''B'', runningTask ''B'' [''A''] ''agent-1'' 3),
               (''A'', runningTask ''A'' [] ''agent-1'' 4)],
      agentTasks = [(''agent-1'', [''C'', ''B'', ''A''])],
      taskDependencies = [(''A'', [''B'']), (''B'', [''C''])],
      completedTasks = [''A'', ''B''],
      config = defaultConfig\<lparr>maxRetries := 1\<rparr>,
      emitted = [TASK_STARTED ''A'' ''agent-1'', TASK_STARTED ''B'' ''agent-1'',
                 TASK_STARTED ''C'' ''agent-1'', TASK_STARTED ''B'' ''agent-1'',
                 TASK_STARTED ''A'' ''agent-1''],
      timers = [(2, FailTaskCb ''C'' 60000, 60000), (3, FailTaskCb ''B'' 60000, 60000),
                (4, FailTaskCb ''A'' 60000, 60000)],
      nextHandle = 5, now = 0,
      dropped = [(runningTask ''A'' [] ''agent-1'' 0)
                   \<lparr>task := (task (runningTask ''A'' [] ''agent-1'' 0))
                      \<lparr>status := Completed, output' := Some ''done'', completedAt := Some 0\<rparr>\<rparr>,
                 (runningTask ''B'' [''A''] ''agent-1'' 1)
                   \<lparr>task := (task (runningTask ''B'' [''A''] ''agent-1'' 1))
                      \<lparr>status := Completed, output' := Some ''done'', completedAt := Some 0\<rparr>\<rparr>]\<rparr>"
  by (simp add: chain_def runningTask_def run_defs)

lemma moved_facts:
  "tasks moved = [(''T'', runningTask ''T'' [] ''agent-2'' 1)]"
  "agentTasks moved = [(''agent-1'', [''T'']), (''agent-2'', [''T''])]"
  "taskDependencies moved = []"
  "completedTasks moved = []"
  "config moved = defaultConfig\<lparr>maxRetries := 1\<rparr>"
  "timers moved = [(0, FailTaskCb ''T'' 60000, 60000), (1, FailTaskCb ''T'' 60000, 60000)]"
  "nextHandle moved = 2"
  "now moved = 0"
  by (simp_all add: moved_def runningTask_def run_defs rescheduleAgentTasks_def requeue_def)

lemma behind_facts:
  "tasks behind = [(''C'', runningTask ''C'' [''B''] ''agent-1'' 2),
                   (''A'', runningTask ''A'' [] ''agent-1'' 3)]"
  "agentTasks behind = [(''agent-1'', [''C'', ''A''])]"
  "taskDependencies behind = [(''A'', [''B'']), (''B'', [''C''])]"
  "completedTasks behind = [''A'', ''B'']"
  "config behind = defaultConfig\<lparr>maxRetries := 1\<rparr>"
  "timers behind = [(2, FailTaskCb ''C'' 60000, 60000), (3, FailTaskCb ''A'' 60000, 60000)]"
  "nextHandle behind = 4"
  "now behind = 0"
  by (simp_all add: behind_def runningTask_def run_defs)

lemma retry_scenario:
  "timers (exec firstFailure (newScheduler defaultConfig)) = [(1, StartTaskCb ''T'', 1000)]
   \<and> ''T'' \<in> activeIds (exec firstFailure (newScheduler defaultConfig))
   \<and> timers (exec secondFailure (newScheduler defaultConfig)) = [(3, StartTaskCb ''T'', 2000)]
   \<and> ''T'' \<in> activeIds (exec secondFailure (newScheduler defaultConfig))
   \<and> timers (exec thirdFailure (newScheduler defaultConfig)) = []
   \<and> ''T'' \<notin> activeIds (exec thirdFailure (newScheduler defaultConfig))
   \<and> emitted (exec thirdFailure (newScheduler defaultConfig)) =
       [TASK_STARTED ''T'' ''agent-1'', TASK_STARTED ''T'' ''agent-1'',
        TASK_STARTED ''T'' ''agent-1'']
   \<and> map (\<lambda>scheduled. (status (task scheduled), attempts scheduled))
         (dropped (exec thirdFailure (newScheduler defaultConfig))) = [(Failed, 3)]"
  by (simp add: firstFailure_def secondFailure_def thirdFailure_def run_defs fire_def
      activeIds_def cancelDependentTasks.simps)

lemma retryState_facts:
  assumes found: "map_of (tasks s) t = Some sch"
  shows "map_of (tasks (retryState t sch s)) t =
           Some (sch\<lparr>attempts := attempts sch + 1, lastAttempt := Some (now s)\<rparr>)
     \<and> timers (retryState t sch s) =
         filter (\<lambda>x. Some (fst x) \<noteq> timeout sch) (timers s)
           @ [(nextHandle s, StartTaskCb t, retryDelay (config s) * 2 ^ (attempts sch + 1 - 1))]
     \<and> activeIds (retryState t sch s) = activeIds s
     \<and> agentTasks (retryState t sch s) = agentTasks s
     \<and> completedTasks (retryState t sch s) = completedTasks s
     \<and> taskDependencies (retryState t sch s) = taskDependencies s
     \<and> emitted (retryState t sch s) = emitted s
     \<and> dropped (retryState t sch s) = dropped s
     \<and> (\<forall>x. x \<noteq> t \<longrightarrow> map_of (tasks (retryState t sch s)) x = map_of (tasks s) x)"
  using activeIds_update_present[OF found]
  by (simp add: retryState_def update_conv' activeIds_def)

lemma retryState_fire:
  assumes "nextHandle s \<notin> fst ` set (timers s)"
  shows "fire (nextHandle s) (retryState t sch s) =
     startTask t (clearTimeout (nextHandle s) (retryState t sch s))"
proof -
  have "nextHandle s \<notin> fst ` set (filter (\<lambda>x. Some (fst x) \<noteq> timeout sch) (timers s))"
    using assms by auto
  then have "map_of (filter (\<lambda>x. Some (fst x) \<noteq> timeout sch) (timers s)) (nextHandle s) = None"
    by (simp add: map_of_eq_None_iff)
  then have "map_of (timers (retryState t sch s)) (nextHandle s) =
      Some (StartTaskCb t, retryDelay (config s) * 2 ^ (attempts sch + 1 - 1))"
    by (simp add: retryState_def map_add_def)
  then show ?thesis by (simp add: fire_def)
qed

lemma failedState_facts:
  "activeIds (failedState t err sch s) = activeIds s - {t}"
  "completedTasks (failedState t err sch s) = completedTasks s"
  "taskDependencies (failedState t err sch s) = taskDependencies s"
  "dropped (failedState t err sch s) = dropped s @ [failedObj sch err (now s)]"
  "\<not> registered (agentTasks (failedState t err sch s)) (agentId sch) t"
  "x \<noteq> t \<Longrightarrow> map_of (tasks (failedState t err sch s)) x = map_of (tasks s) x"
  by (simp_all add: failedState_def activeIds_def keys_delete not_registered_index_remove)

lemma failTask_terminal_facts:
  assumes found: "map_of (tasks s) t = Some sch"
    and last: "\<not> attempts sch + 1 < maxRetries (config s)"
  shows "failTask t err s =
        (None, cancelEach (dependentsOf s t) ''Parent task failed'' (failedState t err sch s))
     \<and> failedObj sch err (now s) \<in> set (droppedSince s (snd (failTask t err s)))
     \<and> t \<notin> activeIds (snd (failTask t err s))
     \<and> \<not> registered (agentTasks (snd (failTask t err s))) (agentId sch) t
     \<and> completedTasks (snd (failTask t err s)) = completedTasks s
     \<and> activeIds (snd (failTask t err s)) =
         activeIds s - {t} - cascade (failedState t err sch s) (set (dependentsOf s t))
     \<and> (\<forall>e \<in> set (emittedSince s (snd (failTask t err s))).
           \<exists>x. x \<in> cascade (failedState t err sch s) (set (dependentsOf s t))
             \<and> e = TASK_CANCELLED x
                   (cascadeReason (failedState t err sch s) (dependentsOf s t)
                      ''Parent task failed'' x))
     \<and> (\<forall>x. x \<in> cascade (failedState t err sch s) (set (dependentsOf s t)) \<longrightarrow>
           TASK_CANCELLED x
             (cascadeReason (failedState t err sch s) (dependentsOf s t)
                ''Parent task failed'' x)
             \<in> set (emittedSince s (snd (failTask t err s))))
     \<and> (\<forall>x schx. x \<in> cascade (failedState t err sch s) (set (dependentsOf s t))
            \<and> map_of (tasks s) x = Some schx \<longrightarrow>
          gone (failedState t err sch s) (snd (failTask t err s)) x schx)"
proof -
  let ?s2 = "failedState t err sch s"
  let ?s' = "cancelEach (dependentsOf s t) ''Parent task failed'' ?s2"
  have eq: "failTask t err s = (None, ?s')" by (rule failTask_terminal[OF found last])
  then have s': "snd (failTask t err s) = ?s'" by simp
  have ext: "extends ?s2 ?s'" by (rule cancel_extends)
  then obtain os where "dropped ?s' = dropped ?s2 @ os" by (auto simp: extends_def)
  then have d: "failedObj sch err (now s) \<in> set (droppedSince s ?s')"
    by (simp add: droppedSince_def failedState_facts)
  have ids: "activeIds ?s' = activeIds s - {t} - cascade ?s2 (set (dependentsOf s t))"
    by (simp add: cancel_active_ids(3) failedState_facts)
  then have inactive: "t \<notin> activeIds ?s'" by auto
  from ext have "registered (agentTasks ?s') a v \<Longrightarrow> registered (agentTasks ?s2) a v" for a v
    by (auto simp: extends_def)
  with failedState_facts(5)[of t err sch s]
  have agent: "\<not> registered (agentTasks ?s') (agentId sch) t" by blast
  have completed: "completedTasks ?s' = completedTasks s"
    using cancel_frame(3)[of "dependentsOf s t" "''Parent task failed''" ?s2]
    by (simp add: failedState_facts)
  have since: "emittedSince s x = emittedSince ?s2 x" for x
    by (simp add: emittedSince_def failedState_def)
  note rs = cancelEach_reasons[of ?s2 "dependentsOf s t" "''Parent task failed''"]
  have ev1: "\<forall>e \<in> set (emittedSince s ?s').
           \<exists>x. x \<in> cascade ?s2 (set (dependentsOf s t))
             \<and> e = TASK_CANCELLED x
                   (cascadeReason ?s2 (dependentsOf s t) ''Parent task failed'' x)"
    using rs [THEN conjunct1] by (simp only: since)
  have ev2: "TASK_CANCELLED x (cascadeReason ?s2 (dependentsOf s t) ''Parent task failed'' x)
             \<in> set (emittedSince s ?s')"
    if "x \<in> cascade ?s2 (set (dependentsOf s t))" for x
    using rs [THEN conjunct2, rule_format, OF that] by (simp only: since)
  have g: "gone ?s2 ?s' x schx"
    if "x \<in> cascade ?s2 (set (dependentsOf s t)) \<and> map_of (tasks s) x = Some schx" for x schx
  proof -
    from that have c: "x \<in> cascade ?s2 (set (dependentsOf s t))" by simp
    then have "x \<in> activeIds ?s2" by (rule cascade_active)
    then have "x \<noteq> t" by (simp add: failedState_facts)
    with that have "map_of (tasks ?s2) x = Some schx" by (simp add: failedState_facts)
    moreover from c have "x \<notin> activeIds ?s'" by (simp add: cancel_active_ids(3))
    ultimately show ?thesis by (rule cancel_gone(3))
  qed
  show ?thesis
    unfolding s'
  proof (intro conjI allI impI, goal_cases)
    case 1
    show ?case by (rule eq)
  next
    case 2
    show ?case by (rule d)
  next
    case 3
    show ?case by (rule inactive)
  next
    case 4
    show ?case by (rule agent)
  next
    case 5
    show ?case by (rule completed)
  next
    case 6
    show ?case by (rule ids)
  next
    case 7
    show ?case by (rule ev1)
  next
    case (8 x)
    then show ?case by (rule ev2)
  next
    case (9 x schx)
    then show ?case by (rule g)
  qed
qed

lemma assignedOnce_value:
  "assignedOnce =
     \<lparr>tasks = [(''T'', runningTask ''T'' [] ''agent-1'' 0)],
      agentTasks = [(''agent-1'', [''T''])],
      taskDependencies = [],
      completedTasks = [],
      config = defaultConfig,
      emitted = [TASK_STARTED ''T'' ''agent-1''],
      timers = [(0, FailTaskCb ''T'' 60000, 60000)],
      nextHandle = 1, now = 0, dropped = []\<rparr>"
  by (simp add: assignedOnce_def runningTask_def run_defs)

subsection \<open>The completed-id set and its cleanup\<close>





lemma completedTasks_startTask [simp]: "completedTasks (startTask t s) = completedTasks s"
  by (cases "map_of (tasks s) t") (simp_all add: startTask_absent startTask_found)

























section \<open>Assignment with unmet dependencies\<close>

text \<open>
  C1. For a task with a non-empty dependency list of which some id is not in the
  completed-id set, \<^verbatim>\<open>assignTask\<close> throws \<^verbatim>\<open>TaskDependencyError\<close> with the task id and
  exactly the unmet dependency ids, and the scheduler is left as it was: the whole state
  is unchanged, in particular the active-task index, the agent index and the
  reverse-dependency index.
\<close>

theorem assignTask_unmet_dependency:
  assumes "dependencies t \<noteq> []"
    and "\<exists>depId. depId \<in> set (dependencies t) \<and> depId \<notin> set (completedTasks s)"
  shows "assignTask t agent s = (Some (TaskDependencyError (id' t) (unmet s t)), s)
    \<and> set (unmet s t) = {depId. depId \<in> set (dependencies t) \<and> depId \<notin> set (completedTasks s)}
    \<and> tasks (snd (assignTask t agent s)) = tasks s
    \<and> agentTasks (snd (assignTask t agent s)) = agentTasks s
    \<and> taskDependencies (snd (assignTask t agent s)) = taskDependencies s"
proof -
  from assms(2) have "unmet s t \<noteq> []"
    by (auto simp: unmet_def filter_empty_conv)
  with assms(1) have "assignTask t agent s = (Some (TaskDependencyError (id' t) (unmet s t)), s)"
    by (simp add: assignTask_def unmet_def Let_def)
  moreover have "set (unmet s t) =
      {depId. depId \<in> set (dependencies t) \<and> depId \<notin> set (completedTasks s)}"
    by (auto simp: unmet_def)
  ultimately show ?thesis by simp
qed

theorem assignTask_unmet_dependency_witness:
  "dependencies (pendingTask ''B'' [''A'']) \<noteq> []
   \<and> (\<exists>depId. depId \<in> set (dependencies (pendingTask ''B'' [''A'']))
         \<and> depId \<notin> set (completedTasks (newScheduler defaultConfig)))
   \<and> assignTask (pendingTask ''B'' [''A'']) ''agent-1'' (newScheduler defaultConfig)
       = (Some (TaskDependencyError ''B'' [''A'']), newScheduler defaultConfig)"
proof -
  have a: "dependencies (pendingTask ''B'' [''A'']) \<noteq> []"
    by (simp add: pendingTask_def)
  have b: "\<exists>depId. depId \<in> set (dependencies (pendingTask ''B'' [''A'']))
         \<and> depId \<notin> set (completedTasks (newScheduler defaultConfig))"
    by (simp add: pendingTask_def newScheduler_def)
  have c: "unmet (newScheduler defaultConfig) (pendingTask ''B'' [''A'']) = [''A'']"
    by (simp add: unmet_def pendingTask_def newScheduler_def)
  have d: "id' (pendingTask ''B'' [''A'']) = ''B''"
    by (simp add: pendingTask_def)
  from assignTask_unmet_dependency [OF a b, of "''agent-1''"] a b c d show ?thesis
    by simp
qed

section \<open>Assignment with all dependencies completed\<close>

text \<open>
  C2. For a task whose dependencies are all in the completed-id set, \<^verbatim>\<open>assignTask\<close>
  returns normally; the active-task index then holds for the task id a
  \<^verbatim>\<open>ScheduledTask\<close> with \<open>attempts = 0\<close> for the agent, already in status
  \<^verbatim>\<open>running\<close> with \<open>startedAt\<close> set and the handle of its execution timeout (there
  is no state after the call in which it is \<^verbatim>\<open>assigned\<close> or \<^verbatim>\<open>queued\<close>); the task
  id is in the agent's set and in the dependents of every dependency; one
  \<^verbatim>\<open>TASK_STARTED\<close> event with the task id and the agent id was emitted; and one timer,
  the execution timeout over \<open>resourceTimeout\<close>, was armed.
\<close>

theorem assignTask_starts:
  assumes "set (dependencies t) \<subseteq> set (completedTasks s)"
  shows "fst (assignTask t agent s) = None
    \<and> map_of (tasks (snd (assignTask t agent s))) (id' t) =
           Some \<lparr>task = t\<lparr>status := Running, assignedAgent := Some agent,
                          startedAt := Some (now s)\<rparr>,
                 agentId = agent, attempts = 0, lastAttempt = None,
                 timeout = Some (nextHandle s)\<rparr>
    \<and> registered (agentTasks (snd (assignTask t agent s))) agent (id' t)
    \<and> list_all (\<lambda>depId. registered (taskDependencies (snd (assignTask t agent s))) depId (id' t))
           (dependencies t)
    \<and> emitted (snd (assignTask t agent s)) = emitted s @ [TASK_STARTED (id' t) agent]
    \<and> timers (snd (assignTask t agent s)) =
           timers s @ [(nextHandle s, FailTaskCb (id' t) (resourceTimeout (config s)),
                        resourceTimeout (config s))]"
proof -
  from assms have nounmet:
    "filter (\<lambda>depId. depId \<notin> set (completedTasks s)) (dependencies t) = []"
    by (auto simp: filter_empty_conv)
  have 1: "fst (assignTask t agent s) = None"
    using nounmet by (simp add: assignTask_def Let_def)
  have 2: "map_of (tasks (snd (assignTask t agent s))) (id' t) =
           Some \<lparr>task = t\<lparr>status := Running, assignedAgent := Some agent,
                          startedAt := Some (now s)\<rparr>,
                 agentId = agent, attempts = 0, lastAttempt = None,
                 timeout = Some (nextHandle s)\<rparr>"
    using nounmet
    by (simp add: assignTask_def Let_def startTask_def setTimeout_def
        fold_registerDependency_frame update_conv')
  have 3: "registered (agentTasks (snd (assignTask t agent s))) agent (id' t)"
    using nounmet
    by (simp add: assignTask_def Let_def startTask_def setTimeout_def
        fold_registerDependency_frame update_conv' registered_index_add_same)
  have 4: "list_all (\<lambda>depId. registered (taskDependencies (snd (assignTask t agent s))) depId (id' t))
           (dependencies t)"
    using nounmet
    by (simp add: assignTask_def Let_def startTask_def setTimeout_def
        fold_registerDependency_frame update_conv' list_all_iff
        fold_registerDependency_registered)
  have 5: "emitted (snd (assignTask t agent s)) = emitted s @ [TASK_STARTED (id' t) agent]"
    using nounmet
    by (simp add: assignTask_def Let_def startTask_def setTimeout_def
        fold_registerDependency_frame update_conv')
  have 6: "timers (snd (assignTask t agent s)) =
           timers s @ [(nextHandle s, FailTaskCb (id' t) (resourceTimeout (config s)),
                        resourceTimeout (config s))]"
    using nounmet
    by (simp add: assignTask_def Let_def startTask_def setTimeout_def
        fold_registerDependency_frame update_conv')
  from 1 2 3 4 5 6 show ?thesis by blast
qed

text \<open>The theorem at a task \<open>B\<close> that depends on the completed \<open>A\<close>.\<close>

theorem assignTask_starts_witness:
  "set (dependencies (pendingTask ''B'' [''A'']))
     \<subseteq> set (completedTasks ((newScheduler defaultConfig)\<lparr>completedTasks := [''A'']\<rparr>))
   \<and> fst (assignTask (pendingTask ''B'' [''A'']) ''agent-1''
           ((newScheduler defaultConfig)\<lparr>completedTasks := [''A'']\<rparr>)) = None
   \<and> map_of (tasks (snd (assignTask (pendingTask ''B'' [''A'']) ''agent-1''
           ((newScheduler defaultConfig)\<lparr>completedTasks := [''A'']\<rparr>)))) ''B'' =
       Some \<lparr>task = \<lparr>id' = ''B'', dependencies = [''A''], status = Running,
                     assignedAgent = Some ''agent-1'', output' = None, error = None,
                     startedAt = Some 0, completedAt = None\<rparr>,
             agentId = ''agent-1'', attempts = 0, lastAttempt = None, timeout = Some 0\<rparr>
   \<and> registered (taskDependencies (snd (assignTask (pendingTask ''B'' [''A'']) ''agent-1''
           ((newScheduler defaultConfig)\<lparr>completedTasks := [''A'']\<rparr>)))) ''A'' ''B''
   \<and> timers (snd (assignTask (pendingTask ''B'' [''A'']) ''agent-1''
           ((newScheduler defaultConfig)\<lparr>completedTasks := [''A'']\<rparr>))) =
       [(0, FailTaskCb ''B'' 60000, 60000)]"
proof -
  have a: "set (dependencies (pendingTask ''B'' [''A'']))
     \<subseteq> set (completedTasks ((newScheduler defaultConfig)\<lparr>completedTasks := [''A'']\<rparr>))"
    by (simp add: pendingTask_def)
  from assignTask_starts [OF a, of "''agent-1''"] a show ?thesis
    by (simp add: pendingTask_def newScheduler_def defaultConfig_def)
qed

section \<open>Operations on a task that is not active\<close>

text \<open>
  C3. For a task id that is not in the active-task index, \<^verbatim>\<open>completeTask\<close> and
  \<^verbatim>\<open>failTask\<close> each throw the not-found error (\<^verbatim>\<open>TaskError\<close> with the message
  \<^verbatim>\<open>Task not found: <id>\<close>), and the failing call leaves the whole scheduler state
  (indices, timers, task fields) unchanged.
\<close>

theorem not_found_no_mutation:
  assumes "taskId \<notin> activeIds s"
  shows "completeTask taskId result s = (Some (TaskError (''Task not found: '' @ taskId)), s)
    \<and> failTask taskId err s = (Some (TaskError (''Task not found: '' @ taskId)), s)"
proof -
  from assms have "map_of (tasks s) taskId = None"
    by (simp add: activeIds_def map_of_eq_None_iff)
  then show ?thesis by (simp add: completeTask_def failTask_def)
qed

theorem not_found_no_mutation_witness:
  "''A'' \<notin> activeIds (newScheduler defaultConfig)
   \<and> completeTask ''A'' ''done'' (newScheduler defaultConfig)
       = (Some (TaskError ''Task not found: A''), newScheduler defaultConfig)
   \<and> failTask ''A'' (Error ''boom'') (newScheduler defaultConfig)
       = (Some (TaskError ''Task not found: A''), newScheduler defaultConfig)"
proof -
  have a: "''A'' \<notin> activeIds (newScheduler defaultConfig)"
    by (simp add: activeIds_def newScheduler_def)
  from not_found_no_mutation [OF a, of "''done''" "Error ''boom''"] a show ?thesis
    by simp
qed

section \<open>Completion\<close>

text \<open>
  C4, as stated, fails where it says that \<^verbatim>\<open>completeTask\<close> removes the task from the agent
  indices: the task leaves the set of the agent that its entry in the active-task index
  records, and no other. \<^verbatim>\<open>assignTask\<close> writes a new entry for an id that is already active
  and leaves the set of the agent of the old entry as it is; nothing in the scheduler moves
  an id from one agent's set to another's. In \<open>moved\<close>, where \<open>T\<close> went from \<open>agent-1\<close> to
  \<open>agent-2\<close>, completing \<open>T\<close> leaves it in the set of \<open>agent-1\<close>.
\<close>

theorem completeTask_agent_counterexample:
  "''T'' \<in> activeIds moved
   \<and> fst (completeTask ''T'' ''done'' moved) = None
   \<and> ''T'' \<notin> activeIds (snd (completeTask ''T'' ''done'' moved))
   \<and> registered (agentTasks (snd (completeTask ''T'' ''done'' moved))) ''agent-1'' ''T''"
  by (simp add: moved_facts activeIds_def registered_def completeTask_def index_remove_def
      clearTaskTimeout_def clearTimeout_def runningTask_def set_add_def Let_def)

text \<open>
  C4, amended. For an active task id \<open>A\<close>, \<^verbatim>\<open>completeTask\<close> returns normally. The task object
  leaves the index with status \<^verbatim>\<open>completed\<close>, the output and \<open>completedAt\<close>; the timer
  whose handle the entry of the task holds is cleared; \<open>A\<close> is removed from the active-task
  index and from the set of the agent that the entry records, and is added to the
  completed-id set. Then, for each dependent \<open>B\<close> registered for \<open>A\<close> that is still active,
  \<open>B\<close> is started in the same call (status \<^verbatim>\<open>running\<close>, \<open>startedAt\<close>, a \<^verbatim>\<open>TASK_STARTED\<close>
  event, and an execution-timeout timer whose handle \<open>B\<close> holds) if every id of its
  dependency list is in the completed-id set, and is left as it was, with no event and no
  timer, if not. The timers that the call arms are these, one for each started dependent,
  with fresh handles. Tasks that are not dependents of \<open>A\<close> are untouched.
\<close>

theorem completeTask_active:
  assumes "map_of (tasks s) A = Some sch"
  shows "fst (completeTask A r s) = None
    \<and> snd (completeTask A r s) = fold startIfReady (dependentsOf s A) (completedState A r sch s)
    \<and> dropped (snd (completeTask A r s)) = dropped s @
         [sch\<lparr>task := (task sch)
            \<lparr>status := Completed, output' := Some r, completedAt := Some (now s)\<rparr>\<rparr>]
    \<and> timers (snd (completeTask A r s)) =
         filter (\<lambda>t. Some (fst t) \<noteq> timeout sch) (timers s)
         @ startedTimers (nextHandle s) (resourceTimeout (config s))
             (filter (ready (completedState A r sch s)) (dependentsOf s A))
    \<and> nextHandle (snd (completeTask A r s)) =
         nextHandle s + length (filter (ready (completedState A r sch s)) (dependentsOf s A))
    \<and> A \<notin> activeIds (snd (completeTask A r s))
    \<and> agentTasks (snd (completeTask A r s)) = index_remove (agentTasks s) (agentId sch) A
    \<and> \<not> registered (agentTasks (snd (completeTask A r s))) (agentId sch) A
    \<and> completedTasks (snd (completeTask A r s)) = set_add (completedTasks s) A
    \<and> A \<in> set (completedTasks (snd (completeTask A r s)))
    \<and> emitted (snd (completeTask A r s)) =
         emitted s @ concat (map (startedEvents (completedState A r sch s)) (dependentsOf s A))
    \<and> (\<forall>B d. B \<in> set (dependentsOf s A) \<and> B \<noteq> A \<and> map_of (tasks s) B = Some d \<longrightarrow>
          (if set (dependencies (task d)) \<subseteq> set (completedTasks (snd (completeTask A r s)))
           then (\<exists>h. map_of (tasks (snd (completeTask A r s))) B = Some (started d (now s) h)
                    \<and> (h, FailTaskCb B (resourceTimeout (config s)), resourceTimeout (config s))
                         \<in> set (timers (snd (completeTask A r s))))
              \<and> TASK_STARTED B (agentId d) \<in> set (emittedSince s (snd (completeTask A r s)))
           else map_of (tasks (snd (completeTask A r s))) B = Some d
              \<and> (\<forall>agent. TASK_STARTED B agent \<notin> set (emittedSince s (snd (completeTask A r s))))))
    \<and> (\<forall>C. C \<notin> set (dependentsOf s A) \<and> C \<noteq> A \<longrightarrow>
          map_of (tasks (snd (completeTask A r s))) C = map_of (tasks s) C)"
proof -
  let ?s3 = "completedState A r sch s"
  let ?ds = "dependentsOf s A"
  let ?s' = "snd (completeTask A r s)"
  have s': "?s' = fold startIfReady ?ds ?s3" and ok: "fst (completeTask A r s) = None"
    by (simp_all add: completeTask_found[OF assms])
  have dropped: "dropped ?s' = dropped s @
         [sch\<lparr>task := (task sch)
            \<lparr>status := Completed, output' := Some r, completedAt := Some (now s)\<rparr>\<rparr>]"
    by (simp add: s' fold_startIfReady_frame completedState_def)
  have s3: "timers ?s3 = filter (\<lambda>t. Some (fst t) \<noteq> timeout sch) (timers s)"
    "nextHandle ?s3 = nextHandle s" "config ?s3 = config s" "now ?s3 = now s"
    by (simp_all add: completedState_def)
  have timers: "timers ?s' =
         filter (\<lambda>t. Some (fst t) \<noteq> timeout sch) (timers s)
         @ startedTimers (nextHandle s) (resourceTimeout (config s)) (filter (ready ?s3) ?ds)"
    and handles: "nextHandle ?s' = nextHandle s + length (filter (ready ?s3) ?ds)"
    using timers_fold_startIfReady_exact[of ?ds ?s3] by (simp_all only: s' s3)
  have "activeIds ?s' \<subseteq> activeIds ?s3"
    unfolding s' by (rule activeIds_fold_startIfReady)
  moreover have "activeIds ?s3 = activeIds s - {A}"
    by (simp add: activeIds_def completedState_def keys_delete)
  ultimately have inactive: "A \<notin> activeIds ?s'" by auto
  have agents: "agentTasks ?s' = index_remove (agentTasks s) (agentId sch) A"
    by (simp add: s' fold_startIfReady_frame completedState_def)
  have completed: "completedTasks ?s' = set_add (completedTasks s) A"
    by (simp add: s' fold_startIfReady_frame completedState_def)
  have events: "emitted ?s' = emitted s @ concat (map (startedEvents ?s3) ?ds)"
    by (simp add: s' emitted_fold_startIfReady completedState_def)
  then have since: "emittedSince s ?s' = concat (map (startedEvents ?s3) ?ds)"
    by (simp add: emittedSince_def)
  have deps: "(if set (dependencies (task d)) \<subseteq> set (completedTasks ?s')
           then (\<exists>h. map_of (tasks ?s') B = Some (started d (now s) h)
                    \<and> (h, FailTaskCb B (resourceTimeout (config s)), resourceTimeout (config s))
                         \<in> set (timers ?s'))
              \<and> TASK_STARTED B (agentId d) \<in> set (emittedSince s ?s')
           else map_of (tasks ?s') B = Some d
              \<and> (\<forall>agent. TASK_STARTED B agent \<notin> set (emittedSince s ?s')))"
    if B: "B \<in> set ?ds" "B \<noteq> A" "map_of (tasks s) B = Some d" for B d
  proof -
    from B have e: "map_of (tasks ?s3) B = Some d"
      by (simp add: completedState_def)
    have c: "canStartTask ?s3 (task d)
        \<longleftrightarrow> set (dependencies (task d)) \<subseteq> set (completedTasks ?s')"
      by (auto simp: canStartTask_def list_all_iff completed completedState_def)
    show ?thesis
    proof (cases "set (dependencies (task d)) \<subseteq> set (completedTasks ?s')")
      case True
      with c have can: "canStartTask ?s3 (task d)" by simp
      from fold_startIfReady_armed[OF B(1) e can]
      have "\<exists>h. map_of (tasks ?s') B = Some (started d (now s) h)
                    \<and> (h, FailTaskCb B (resourceTimeout (config s)), resourceTimeout (config s))
                         \<in> set (timers ?s')"
        by (simp only: s' s3)
      moreover from e can have "startedEvents ?s3 B = [TASK_STARTED B (agentId d)]"
        by (simp add: startedEvents_def)
      with B(1) have "TASK_STARTED B (agentId d) \<in> set (emittedSince s ?s')"
        unfolding since by (auto intro!: bexI[of _ B])
      ultimately show ?thesis using True by simp
    next
      case False
      with c e have nr: "\<not> ready ?s3 B" by (simp add: ready_def)
      then have "map_of (tasks ?s') B = Some d"
        by (simp add: s' fold_startIfReady_not_ready e)
      moreover have "TASK_STARTED B agent \<notin> set (emittedSince s ?s')" for agent
        unfolding since using nr by (auto dest: startedEvents_id)
      ultimately show ?thesis using False by simp
    qed
  qed
  have others: "map_of (tasks ?s') C = map_of (tasks s) C"
    if "C \<notin> set ?ds" "C \<noteq> A" for C
    using that by (simp add: s' fold_startIfReady_other completedState_def)
  have agents': "\<not> registered (agentTasks ?s') (agentId sch) A"
    unfolding agents by (rule not_registered_index_remove)
  have completed': "A \<in> set (completedTasks ?s')"
    unfolding completed by simp
  show ?thesis
  proof (intro conjI allI impI, goal_cases)
    case 1
    show ?case by (rule ok)
  next
    case 2
    show ?case by (rule s')
  next
    case 3
    show ?case by (rule dropped)
  next
    case 4
    show ?case by (rule timers)
  next
    case 5
    show ?case by (rule handles)
  next
    case 6
    show ?case by (rule inactive)
  next
    case 7
    show ?case by (rule agents)
  next
    case 8
    show ?case by (rule agents')
  next
    case 9
    show ?case by (rule completed)
  next
    case 10
    show ?case by (rule completed')
  next
    case 11
    show ?case by (rule events)
  next
    case (12 B d)
    then have "B \<in> set ?ds" "B \<noteq> A" "map_of (tasks s) B = Some d" by blast+
    then show ?case by (rule deps)
  next
    case (13 C)
    then have "C \<notin> set ?ds" "C \<noteq> A" by blast+
    then show ?case by (rule others)
  qed
qed

text \<open>The theorem at the run \<open>reassigned\<close>: completing \<open>A\<close> clears the timer 2 that \<open>A\<close>
  holds and starts its dependent \<open>B\<close>, for which the timer 3 is armed.\<close>

theorem completeTask_active_witness:
  "map_of (tasks reassigned) ''A'' = Some (runningTask ''A'' [] ''agent-1'' 2)
   \<and> ''B'' \<in> set (dependentsOf reassigned ''A'')
   \<and> map_of (tasks reassigned) ''B'' = Some (runningTask ''B'' [''A''] ''agent-1'' 1)
   \<and> fst (completeTask ''A'' ''done'' reassigned) = None
   \<and> ''A'' \<notin> activeIds (snd (completeTask ''A'' ''done'' reassigned))
   \<and> ''A'' \<in> set (completedTasks (snd (completeTask ''A'' ''done'' reassigned)))
   \<and> TASK_STARTED ''B'' ''agent-1''
        \<in> set (emittedSince reassigned (snd (completeTask ''A'' ''done'' reassigned)))
   \<and> timers (snd (completeTask ''A'' ''done'' reassigned)) =
        [(1, FailTaskCb ''B'' 60000, 60000), (3, FailTaskCb ''B'' 60000, 60000)]
   \<and> nextHandle (snd (completeTask ''A'' ''done'' reassigned)) = 4"
proof -
  have a: "map_of (tasks reassigned) ''A'' = Some (runningTask ''A'' [] ''agent-1'' 2)"
    by (simp add: reassigned_value)
  have b: "''B'' \<in> set (dependentsOf reassigned ''A'')"
    by (simp add: reassigned_value dependentsOf_def)
  have c: "map_of (tasks reassigned) ''B'' = Some (runningTask ''B'' [''A''] ''agent-1'' 1)"
    by (simp add: reassigned_value)
  have d: "dependencies (task (runningTask ''B'' [''A''] ''agent-1'' 1)) = [''A'']"
    and e: "agentId (runningTask ''B'' [''A''] ''agent-1'' 1) = ''agent-1''"
    by (simp_all add: runningTask_def pendingTask_def)
  note t = completeTask_active [OF a, of "''done''"]
  from t have f: "''A'' \<in> set (completedTasks (snd (completeTask ''A'' ''done'' reassigned)))"
    by blast
  note t4 = t [THEN conjunct2, THEN conjunct2, THEN conjunct2, THEN conjunct1]
  note t5 = t [THEN conjunct2, THEN conjunct2, THEN conjunct2, THEN conjunct2, THEN conjunct1]
  have rd: "filter (ready (completedState ''A'' ''done'' (runningTask ''A'' [] ''agent-1'' 2)
        reassigned)) (dependentsOf reassigned ''A'') = [''B'']"
    by (simp add: reassigned_value dependentsOf_def ready_def completedState_def
        canStartTask_def runningTask_def pendingTask_def set_add_def)
  have h: "timers (snd (completeTask ''A'' ''done'' reassigned)) =
        [(1, FailTaskCb ''B'' 60000, 60000), (3, FailTaskCb ''B'' 60000, 60000)]"
    unfolding t4 rd by (simp add: reassigned_value runningTask_def defaultConfig_def)
  have n: "nextHandle (snd (completeTask ''A'' ''done'' reassigned)) = 4"
    unfolding t5 rd by (simp add: reassigned_value)
  note t11 = t [THEN conjunct2, THEN conjunct2, THEN conjunct2, THEN conjunct2,
      THEN conjunct2, THEN conjunct2, THEN conjunct2, THEN conjunct2, THEN conjunct2,
      THEN conjunct2, THEN conjunct2, THEN conjunct1, rule_format,
      of "''B''" "runningTask ''B'' [''A''] ''agent-1'' 1"]
  have "''B'' \<in> set (dependentsOf reassigned ''A'') \<and> ''B'' \<noteq> ''A''
      \<and> map_of (tasks reassigned) ''B'' = Some (runningTask ''B'' [''A''] ''agent-1'' 1)"
    using b c by simp
  from t11 [OF this]
  have g: "TASK_STARTED ''B'' ''agent-1''
        \<in> set (emittedSince reassigned (snd (completeTask ''A'' ''done'' reassigned)))"
    using f d e by simp
  note t1 = t [THEN conjunct1]
  note t6 = t [THEN conjunct2, THEN conjunct2, THEN conjunct2, THEN conjunct2,
      THEN conjunct2, THEN conjunct1]
  show ?thesis
    by (intro conjI) (fact a b c t1 t6 f g h n)+
qed

section \<open>Failure, retry and the cascade of a terminal failure\<close>

text \<open>
  C5, as stated, fails in its last part, in three places. Not every task cancelled by the
  cascade of a terminal failure carries the reason \<^verbatim>\<open>Parent task failed\<close>: \<^verbatim>\<open>failTask\<close> hands
  that reason to \<^verbatim>\<open>cancelTask\<close> for the direct dependents, and \<^verbatim>\<open>cancelTask\<close> cancels their
  dependents with the literal \<^verbatim>\<open>Parent task cancelled\<close>; in \<open>chain\<close>, where \<open>C\<close> depends on
  \<open>B\<close> and \<open>B\<close> on \<open>A\<close>, the terminal failure of \<open>A\<close> cancels \<open>C\<close> with that reason. The
  cascade does not go on below a dependent that is not active (\<^verbatim>\<open>cancelTask\<close> returns at
  once for it), so not every transitive dependent is cancelled: in \<open>behind\<close>, where \<open>B\<close> is
  completed, the terminal failure of \<open>A\<close> leaves \<open>C\<close> active. And the failed task leaves the
  set of the agent that its entry records, and no other: in \<open>moved\<close>, where \<open>T\<close> went from
  \<open>agent-1\<close> to \<open>agent-2\<close>, the terminal failure of \<open>T\<close> leaves it in the set of \<open>agent-1\<close>.
\<close>

theorem failTask_terminal_counterexample:
  "''C'' \<in> activeIds chain
   \<and> ''C'' \<in> set (dependentsOf chain ''B'')
   \<and> ''B'' \<in> set (dependentsOf chain ''A'')
   \<and> emittedSince chain (snd (failTask ''A'' (Error ''boom'') chain)) =
       [TASK_CANCELLED ''B'' ''Parent task failed'',
        TASK_CANCELLED ''C'' ''Parent task cancelled'']
   \<and> ''B'' \<in> set (dependentsOf behind ''A'')
   \<and> ''C'' \<in> set (dependentsOf behind ''B'')
   \<and> ''A'' \<in> activeIds behind
   \<and> ''C'' \<in> activeIds behind
   \<and> ''A'' \<notin> activeIds (snd (failTask ''A'' (Error ''boom'') behind))
   \<and> ''C'' \<in> activeIds (snd (failTask ''A'' (Error ''boom'') behind))
   \<and> emittedSince behind (snd (failTask ''A'' (Error ''boom'') behind)) = []
   \<and> ''T'' \<in> activeIds moved
   \<and> ''T'' \<notin> activeIds (snd (failTask ''T'' (Error ''boom'') moved))
   \<and> registered (agentTasks (snd (failTask ''T'' (Error ''boom'') moved))) ''agent-1'' ''T''"
  by (simp add: chain_value moved_facts behind_facts activeIds_def dependentsOf_def
      registered_def failTask_def cancelTask.simps cancelDependentTasks.simps cancelActive_def
      clearTaskTimeout_def clearTimeout_def index_remove_def emittedSince_def
      runningTask_def defaultConfig_def Let_def)

text \<open>
  C5, amended. For an active task, \<^verbatim>\<open>failTask\<close> increments \<open>attempts\<close> and records
  \<open>lastAttempt\<close>. If the incremented \<open>attempts\<close> is below \<open>maxRetries\<close>, the timer whose
  handle the entry of the task holds is cleared and a timer over
  \<open>retryDelay * 2 ^ (attempts - 1)\<close> milliseconds is armed whose firing calls \<^verbatim>\<open>startTask\<close>;
  the task stays in the active-task index and in the agents' sets, and nothing but the
  timers, \<open>attempts\<close> and \<open>lastAttempt\<close> changes. Otherwise the task object is dropped with
  status \<^verbatim>\<open>failed\<close>, \<open>completedAt\<close> and the error, the task is removed from the active-task
  index and from the set of the agent that its entry records, the completed-id set is
  unchanged, and exactly the tasks that the cascade reaches from the registered dependents
  through active tasks are cancelled, each with one event at least: with the reason
  \<^verbatim>\<open>Parent task failed\<close> the direct dependents that the loop over them finds active (\<open>foundActive\<close>),
  with the reason \<^verbatim>\<open>Parent task cancelled\<close> every other task of the cascade; no other event
  is emitted. With \<open>maxRetries = 3\<close> and \<open>retryDelay = 1000\<close> a task that fails every time is
  retried after 1000 ms and after 2000 ms and fails for good at its third failure: three
  starts, two retries.
\<close>

theorem failTask_active:
  "(map_of (tasks s) t = Some sch \<and> attempts sch + 1 < maxRetries (config s) \<longrightarrow>
      failTask t err s = (None, retryState t sch s)
      \<and> map_of (tasks (retryState t sch s)) t =
           Some (sch\<lparr>attempts := attempts sch + 1, lastAttempt := Some (now s)\<rparr>)
      \<and> timers (retryState t sch s) =
         filter (\<lambda>x. Some (fst x) \<noteq> timeout sch) (timers s)
           @ [(nextHandle s, StartTaskCb t, retryDelay (config s) * 2 ^ (attempts sch + 1 - 1))]
      \<and> activeIds (retryState t sch s) = activeIds s
      \<and> agentTasks (retryState t sch s) = agentTasks s
      \<and> completedTasks (retryState t sch s) = completedTasks s
      \<and> taskDependencies (retryState t sch s) = taskDependencies s
      \<and> emitted (retryState t sch s) = emitted s
      \<and> dropped (retryState t sch s) = dropped s
      \<and> (\<forall>x. x \<noteq> t \<longrightarrow> map_of (tasks (retryState t sch s)) x = map_of (tasks s) x)
      \<and> (nextHandle s \<notin> fst ` set (timers s) \<longrightarrow>
           fire (nextHandle s) (retryState t sch s) =
             startTask t (clearTimeout (nextHandle s) (retryState t sch s))))
   \<and> (map_of (tasks s) t = Some sch \<and> \<not> attempts sch + 1 < maxRetries (config s) \<longrightarrow>
      failTask t err s =
        (None, cancelEach (dependentsOf s t) ''Parent task failed'' (failedState t err sch s))
      \<and> failedObj sch err (now s) \<in> set (droppedSince s (snd (failTask t err s)))
      \<and> t \<notin> activeIds (snd (failTask t err s))
      \<and> \<not> registered (agentTasks (snd (failTask t err s))) (agentId sch) t
      \<and> completedTasks (snd (failTask t err s)) = completedTasks s
      \<and> activeIds (snd (failTask t err s)) =
          activeIds s - {t} - cascade (failedState t err sch s) (set (dependentsOf s t))
      \<and> (\<forall>e \<in> set (emittedSince s (snd (failTask t err s))).
            \<exists>x. x \<in> cascade (failedState t err sch s) (set (dependentsOf s t))
              \<and> e = TASK_CANCELLED x
                    (cascadeReason (failedState t err sch s) (dependentsOf s t)
                       ''Parent task failed'' x))
      \<and> (\<forall>x. x \<in> cascade (failedState t err sch s) (set (dependentsOf s t)) \<longrightarrow>
            TASK_CANCELLED x
              (cascadeReason (failedState t err sch s) (dependentsOf s t)
                 ''Parent task failed'' x)
              \<in> set (emittedSince s (snd (failTask t err s))))
      \<and> (\<forall>x schx. x \<in> cascade (failedState t err sch s) (set (dependentsOf s t))
            \<and> map_of (tasks s) x = Some schx \<longrightarrow>
           gone (failedState t err sch s) (snd (failTask t err s)) x schx))
   \<and> timers (exec firstFailure (newScheduler defaultConfig)) = [(1, StartTaskCb ''T'', 1000)]
   \<and> ''T'' \<in> activeIds (exec firstFailure (newScheduler defaultConfig))
   \<and> timers (exec secondFailure (newScheduler defaultConfig)) = [(3, StartTaskCb ''T'', 2000)]
   \<and> ''T'' \<in> activeIds (exec secondFailure (newScheduler defaultConfig))
   \<and> timers (exec thirdFailure (newScheduler defaultConfig)) = []
   \<and> ''T'' \<notin> activeIds (exec thirdFailure (newScheduler defaultConfig))
   \<and> emitted (exec thirdFailure (newScheduler defaultConfig)) =
       [TASK_STARTED ''T'' ''agent-1'', TASK_STARTED ''T'' ''agent-1'',
        TASK_STARTED ''T'' ''agent-1'']
   \<and> map (\<lambda>scheduled. (status (task scheduled), attempts scheduled))
         (dropped (exec thirdFailure (newScheduler defaultConfig))) = [(Failed, 3)]"
proof (intro conjI impI, goal_cases)
  case 1
  then show ?case by (simp add: failTask_retry)
next
  case 2
  then show ?case using retryState_facts[of s t sch] by blast
next
  case 3
  then show ?case using retryState_facts[of s t sch] by blast
next
  case 4
  then show ?case using retryState_facts[of s t sch] by blast
next
  case 5
  then show ?case using retryState_facts[of s t sch] by blast
next
  case 6
  then show ?case using retryState_facts[of s t sch] by blast
next
  case 7
  then show ?case using retryState_facts[of s t sch] by blast
next
  case 8
  then show ?case using retryState_facts[of s t sch] by blast
next
  case 9
  then show ?case using retryState_facts[of s t sch] by blast
next
  case 10
  then show ?case using retryState_facts[of s t sch] by blast
next
  case 11
  then show ?case by (simp add: retryState_fire)
next
  case 12
  then show ?case using failTask_terminal_facts[of s t sch err] by blast
next
  case 13
  then show ?case using failTask_terminal_facts[of s t sch err] by blast
next
  case 14
  then show ?case using failTask_terminal_facts[of s t sch err] by blast
next
  case 15
  then show ?case using failTask_terminal_facts[of s t sch err] by blast
next
  case 16
  then show ?case using failTask_terminal_facts[of s t sch err] by blast
next
  case 17
  then show ?case using failTask_terminal_facts[of s t sch err] by blast
next
  case 18
  then show ?case using failTask_terminal_facts[of s t sch err] by blast
next
  case 19
  then show ?case using failTask_terminal_facts[of s t sch err] by blast
next
  case 20
  then show ?case using failTask_terminal_facts[of s t sch err] by blast
qed (simp_all add: retry_scenario)

text \<open>
  The theorem at \<open>assignedOnce\<close>, where the first failure of \<open>T\<close> is retried after 1000 ms,
  and at \<open>chain\<close>, where the failure of \<open>A\<close> is terminal: the direct dependent \<open>B\<close> is
  cancelled with \<^verbatim>\<open>Parent task failed\<close> and its dependent \<open>C\<close> with
  \<^verbatim>\<open>Parent task cancelled\<close>.
\<close>

theorem failTask_active_witness:
  "map_of (tasks assignedOnce) ''T'' = Some (runningTask ''T'' [] ''agent-1'' 0)
   \<and> attempts (runningTask ''T'' [] ''agent-1'' 0) + 1 < maxRetries (config assignedOnce)
   \<and> failTask ''T'' (Error ''boom'') assignedOnce =
       (None, retryState ''T'' (runningTask ''T'' [] ''agent-1'' 0) assignedOnce)
   \<and> timers (retryState ''T'' (runningTask ''T'' [] ''agent-1'' 0) assignedOnce) =
       [(1, StartTaskCb ''T'', 1000)]
   \<and> nextHandle assignedOnce \<notin> fst ` set (timers assignedOnce)
   \<and> fire (nextHandle assignedOnce)
         (retryState ''T'' (runningTask ''T'' [] ''agent-1'' 0) assignedOnce) =
       startTask ''T'' (clearTimeout (nextHandle assignedOnce)
         (retryState ''T'' (runningTask ''T'' [] ''agent-1'' 0) assignedOnce))
   \<and> map_of (tasks chain) ''A'' = Some (runningTask ''A'' [] ''agent-1'' 4)
   \<and> \<not> attempts (runningTask ''A'' [] ''agent-1'' 4) + 1 < maxRetries (config chain)
   \<and> ''A'' \<notin> activeIds (snd (failTask ''A'' (Error ''boom'') chain))
   \<and> ''C'' \<in> cascade (failedState ''A'' (Error ''boom'') (runningTask ''A'' [] ''agent-1'' 4) chain)
              (set (dependentsOf chain ''A''))
   \<and> gone (failedState ''A'' (Error ''boom'') (runningTask ''A'' [] ''agent-1'' 4) chain)
        (snd (failTask ''A'' (Error ''boom'') chain)) ''C''
        (runningTask ''C'' [''B''] ''agent-1'' 2)
   \<and> TASK_CANCELLED ''B'' ''Parent task failed''
        \<in> set (emittedSince chain (snd (failTask ''A'' (Error ''boom'') chain)))
   \<and> TASK_CANCELLED ''C'' ''Parent task cancelled''
        \<in> set (emittedSince chain (snd (failTask ''A'' (Error ''boom'') chain)))"
proof -
  let ?schT = "runningTask ''T'' [] ''agent-1'' 0"
  let ?schA = "runningTask ''A'' [] ''agent-1'' 4"
  let ?fs = "failedState ''A'' (Error ''boom'') ?schA chain"
  have a1: "map_of (tasks assignedOnce) ''T'' = Some ?schT"
    by (simp add: assignedOnce_value)
  have a2: "attempts ?schT + 1 < maxRetries (config assignedOnce)"
    by (simp add: assignedOnce_value runningTask_def defaultConfig_def)
  have b1: "map_of (tasks chain) ''A'' = Some ?schA"
    by (simp add: chain_value)
  have b2: "\<not> attempts ?schA + 1 < maxRetries (config chain)"
    by (simp add: chain_value runningTask_def defaultConfig_def)
  have c: "map_of (tasks chain) ''C'' = Some (runningTask ''C'' [''B''] ''agent-1'' 2)"
    by (simp add: chain_value)
  note r = failTask_active [where s = assignedOnce and t = "''T''" and sch = ?schT
      and err = "Error ''boom''", THEN conjunct1, rule_format, OF conjI [OF a1 a2]]
  note f = failTask_active [where s = chain and t = "''A''" and sch = ?schA
      and err = "Error ''boom''", THEN conjunct2, THEN conjunct1, rule_format,
      OF conjI [OF b1 b2]]
  note r1 = r [THEN conjunct1]
  note r3 = r [THEN conjunct2, THEN conjunct2, THEN conjunct1]
  have fresh: "nextHandle assignedOnce \<notin> fst ` set (timers assignedOnce)"
    by (simp add: assignedOnce_value)
  note r11 = r [THEN conjunct2, THEN conjunct2, THEN conjunct2, THEN conjunct2,
      THEN conjunct2, THEN conjunct2, THEN conjunct2, THEN conjunct2, THEN conjunct2,
      THEN conjunct2, rule_format, OF fresh]
  note f3 = f [THEN conjunct2, THEN conjunct2, THEN conjunct1]
  note f8 = f [THEN conjunct2, THEN conjunct2, THEN conjunct2, THEN conjunct2,
      THEN conjunct2, THEN conjunct2, THEN conjunct2, THEN conjunct1, rule_format]
  note f9 = f [THEN conjunct2, THEN conjunct2, THEN conjunct2, THEN conjunct2,
      THEN conjunct2, THEN conjunct2, THEN conjunct2, THEN conjunct2, rule_format]
  have tm: "timers (retryState ''T'' ?schT assignedOnce) = [(1, StartTaskCb ''T'', 1000)]"
    using r3 by (simp add: assignedOnce_value runningTask_def defaultConfig_def)
  have "activeIds chain = {''C'', ''B'', ''A''}"
    by (simp add: chain_value activeIds_def)
  then have act: "''B'' \<in> activeIds ?fs" "''C'' \<in> activeIds ?fs"
    by (simp_all only: failedState_facts(1)) simp_all
  have deps: "dependentsOf chain ''A'' = [''B'']" "dependentsOf ?fs ''B'' = [''C'']"
    by (simp_all add: dependentsOf_def failedState_facts(3) chain_value)
  have cb: "''B'' \<in> cascade ?fs (set (dependentsOf chain ''A''))"
    by (rule cascade.root) (simp_all add: deps act)
  have cc: "''C'' \<in> cascade ?fs (set (dependentsOf chain ''A''))"
    by (rule cascade.dependent[OF cb]) (simp_all add: deps act)
  have g: "gone ?fs (snd (failTask ''A'' (Error ''boom'') chain)) ''C''
        (runningTask ''C'' [''B''] ''agent-1'' 2)"
    by (rule f9) (simp add: cc c)
  have "''B'' \<in> foundActive ?fs (dependentsOf chain ''A'')"
    unfolding foundActive_def deps using act by (intro CollectI exI[of _ 0]) simp
  then have rb: "cascadeReason ?fs (dependentsOf chain ''A'') ''Parent task failed'' ''B''
      = ''Parent task failed''"
    by (simp add: cascadeReason_def)
  have "''C'' \<notin> foundActive ?fs (dependentsOf chain ''A'')"
    using foundActive_subset[of ?fs "dependentsOf chain ''A''"] by (auto simp: deps)
  then have rc: "cascadeReason ?fs (dependentsOf chain ''A'') ''Parent task failed'' ''C''
      = ''Parent task cancelled''"
    by (simp add: cascadeReason_def)
  have eb: "TASK_CANCELLED ''B'' ''Parent task failed''
        \<in> set (emittedSince chain (snd (failTask ''A'' (Error ''boom'') chain)))"
    using f8 [OF cb] by (simp only: rb)
  have ec: "TASK_CANCELLED ''C'' ''Parent task cancelled''
        \<in> set (emittedSince chain (snd (failTask ''A'' (Error ''boom'') chain)))"
    using f8 [OF cc] by (simp only: rc)
  show ?thesis
    by (intro conjI) (fact a1 a2 r1 tm fresh r11 b1 b2 f3 cc g eb ec)+
qed

section \<open>Active ids and completed ids are exclusive\<close>




section \<open>Cancellation\<close>

text \<open>
  C7, as stated, fails in two places. The cascade does not go on below a dependent that is
  not active: \<^verbatim>\<open>cancelTask\<close> returns at once for such an id
  (\<^verbatim>\<open>if (!scheduled) { return; }\<close>) and never looks at its dependents, so not every
  transitive dependent is cancelled. In \<open>behind\<close>, where \<open>C\<close> depends on the completed \<open>B\<close>
  and \<open>B\<close> on \<open>A\<close>, cancelling \<open>A\<close> leaves \<open>C\<close> active. And a cancelled task leaves the set of
  the agent that its entry records, and no other: in \<open>moved\<close>, where \<open>T\<close> went from \<open>agent-1\<close>
  to \<open>agent-2\<close>, cancelling \<open>T\<close> leaves it in the set of \<open>agent-1\<close>.
\<close>

theorem cancelTask_cascade_counterexample:
  "''B'' \<in> set (dependentsOf behind ''A'')
   \<and> ''C'' \<in> set (dependentsOf behind ''B'')
   \<and> ''A'' \<in> activeIds behind
   \<and> ''C'' \<in> activeIds behind
   \<and> ''C'' \<in> activeIds (cancelTask ''A'' ''user request'' behind)
   \<and> emittedSince behind (cancelTask ''A'' ''user request'' behind)
        = [TASK_CANCELLED ''A'' ''user request'']
   \<and> ''T'' \<in> activeIds moved
   \<and> ''T'' \<notin> activeIds (cancelTask ''T'' ''user request'' moved)
   \<and> registered (agentTasks (cancelTask ''T'' ''user request'' moved)) ''agent-1'' ''T''"
  by (simp add: moved_facts behind_facts activeIds_def dependentsOf_def registered_def
      cancelTask.simps cancelDependentTasks.simps cancelActive_def
      clearTaskTimeout_def clearTimeout_def index_remove_def emittedSince_def
      runningTask_def Let_def)

text \<open>
  C7, amended. \<^verbatim>\<open>cancelTask\<close> on an id that is not active returns the state as it is. On an
  active id it clears the timer whose handle the entry of the task holds, sets status
  \<^verbatim>\<open>cancelled\<close> with \<open>completedAt\<close>, emits \<^verbatim>\<open>TASK_CANCELLED\<close> with the caller's reason,
  removes the task from the active-task index and from the set of the agent that the entry
  records, and then cancels the registered dependents one after the other, each with its
  own dependents before the next (depth-first), with the reason \<^verbatim>\<open>Parent task cancelled\<close>;
  a dependent that is not active is skipped, its own dependents with it, and the loop goes
  on. As a result exactly the tasks of \<open>cascade\<close> (those reached from the task through
  active dependents) leave the active-task index, the other tasks stay as they were, the
  first event of the call is the task's own with the caller's reason, every other event is
  the cancellation of a task of the cascade with the reason \<^verbatim>\<open>Parent task cancelled\<close>,
  every such task has one, and every task of the cascade is \<open>gone\<close>.
\<close>

theorem cancelTask_cascade:
  "(t \<notin> activeIds s \<longrightarrow> cancelTask t reason s = s)
   \<and> (map_of (tasks s) t = Some sch \<longrightarrow>
        cancelTask t reason s =
          cancelEach (dependentsOf s t) ''Parent task cancelled'' (cancelActive t sch reason s)
        \<and> emitted (cancelActive t sch reason s) = emitted s @ [TASK_CANCELLED t reason]
        \<and> dropped (cancelActive t sch reason s) = dropped s @ [cancelledObj sch (now s)]
        \<and> timers (cancelActive t sch reason s) =
            filter (\<lambda>x. Some (fst x) \<noteq> timeout sch) (timers s)
        \<and> tasks (cancelActive t sch reason s) = AList.delete t (tasks s)
        \<and> agentTasks (cancelActive t sch reason s) = index_remove (agentTasks s) (agentId sch) t
        \<and> activeIds (cancelTask t reason s) = activeIds s - cascade s {t}
        \<and> tasks (cancelTask t reason s) = filter (\<lambda>e. fst e \<notin> cascade s {t}) (tasks s)
        \<and> completedTasks (cancelTask t reason s) = completedTasks s
        \<and> taskDependencies (cancelTask t reason s) = taskDependencies s
        \<and> (\<exists>es. emittedSince s (cancelTask t reason s) = TASK_CANCELLED t reason # es
             \<and> (\<forall>e \<in> set es. \<exists>x. x \<in> cascade s {t} \<and> x \<noteq> t
                    \<and> e = TASK_CANCELLED x ''Parent task cancelled'')
             \<and> (\<forall>x. x \<in> cascade s {t} \<and> x \<noteq> t \<longrightarrow>
                    TASK_CANCELLED x ''Parent task cancelled'' \<in> set es))
        \<and> (\<forall>x schx. x \<in> cascade s {t} \<and> map_of (tasks s) x = Some schx \<longrightarrow>
              gone s (cancelTask t reason s) x schx))
   \<and> cancelEach (d # rest) reason s = cancelEach rest reason (cancelTask d reason s)
   \<and> (d \<notin> activeIds s \<longrightarrow> cancelEach (d # rest) reason s = cancelEach rest reason s)"
proof -
  have noop: "cancelTask x r s = s" if "x \<notin> activeIds s" for x r
  proof -
    from that have "map_of (tasks s) x = None"
      by (simp add: activeIds_def map_of_eq_None_iff)
    then show ?thesis by (simp add: cancelTask.simps)
  qed
  have active: "cancelTask t reason s =
          cancelEach (dependentsOf s t) ''Parent task cancelled'' (cancelActive t sch reason s)
        \<and> emitted (cancelActive t sch reason s) = emitted s @ [TASK_CANCELLED t reason]
        \<and> dropped (cancelActive t sch reason s) = dropped s @ [cancelledObj sch (now s)]
        \<and> timers (cancelActive t sch reason s) =
            filter (\<lambda>x. Some (fst x) \<noteq> timeout sch) (timers s)
        \<and> tasks (cancelActive t sch reason s) = AList.delete t (tasks s)
        \<and> agentTasks (cancelActive t sch reason s) = index_remove (agentTasks s) (agentId sch) t
        \<and> activeIds (cancelTask t reason s) = activeIds s - cascade s {t}
        \<and> tasks (cancelTask t reason s) = filter (\<lambda>e. fst e \<notin> cascade s {t}) (tasks s)
        \<and> completedTasks (cancelTask t reason s) = completedTasks s
        \<and> taskDependencies (cancelTask t reason s) = taskDependencies s
        \<and> (\<exists>es. emittedSince s (cancelTask t reason s) = TASK_CANCELLED t reason # es
             \<and> (\<forall>e \<in> set es. \<exists>x. x \<in> cascade s {t} \<and> x \<noteq> t
                    \<and> e = TASK_CANCELLED x ''Parent task cancelled'')
             \<and> (\<forall>x. x \<in> cascade s {t} \<and> x \<noteq> t \<longrightarrow>
                    TASK_CANCELLED x ''Parent task cancelled'' \<in> set es))
        \<and> (\<forall>x schx. x \<in> cascade s {t} \<and> map_of (tasks s) x = Some schx \<longrightarrow>
              gone s (cancelTask t reason s) x schx)"
    if found: "map_of (tasks s) t = Some sch"
  proof (intro conjI allI impI, goal_cases)
    case 1
    show ?case by (rule cancelTask_found[OF found])
  next
    case 2
    show ?case by (rule cancelActive_fields)
  next
    case 3
    show ?case by (rule cancelActive_fields)
  next
    case 4
    show ?case by (rule cancelActive_fields)
  next
    case 5
    show ?case by (rule cancelActive_fields)
  next
    case 6
    show ?case by (rule cancelActive_fields)
  next
    case 7
    show ?case by (rule cancel_active_ids)
  next
    case 8
    show ?case by (rule cancelTask_tasks)
  next
    case 9
    show ?case using cancel_frame(1)[of t reason s] by simp
  next
    case 10
    show ?case using cancel_frame(1)[of t reason s] by simp
  next
    case 11
    show ?case by (rule cancelTask_events[OF found])
  next
    case (12 x schx)
    then have "x \<notin> activeIds (cancelTask t reason s)"
      by (simp add: cancel_active_ids)
    with 12 show ?case by (auto intro: cancel_gone)
  qed
  show ?thesis
  proof (intro conjI)
    show "t \<notin> activeIds s \<longrightarrow> cancelTask t reason s = s"
      using noop by blast
    show "cancelEach (d # rest) reason s = cancelEach rest reason (cancelTask d reason s)"
      by simp
    show "d \<notin> activeIds s \<longrightarrow> cancelEach (d # rest) reason s = cancelEach rest reason s"
      using noop[of d reason] by simp
  qed (use active in blast)
qed

text \<open>
  The theorem at \<open>fanout\<close>: cancelling \<open>A\<close>, on which the active \<open>B\<close> and \<open>C\<close> depend,
  cancels all three, \<open>A\<close> with the caller's reason and \<open>B\<close> and \<open>C\<close> with the reason of
  the cascade.
\<close>

theorem cancelTask_cascade_witness:
  "map_of (tasks fanout) ''A'' = Some (runningTask ''A'' [] ''agent-1'' 3)
   \<and> ''B'' \<in> cascade fanout {''A''}
   \<and> ''C'' \<in> cascade fanout {''A''}
   \<and> ''Z'' \<notin> activeIds fanout
   \<and> cancelTask ''Z'' ''user request'' fanout = fanout
   \<and> activeIds (cancelTask ''A'' ''user request'' fanout)
       = activeIds fanout - cascade fanout {''A''}
   \<and> emittedSince fanout (cancelTask ''A'' ''user request'' fanout) =
       [TASK_CANCELLED ''A'' ''user request'',
        TASK_CANCELLED ''B'' ''Parent task cancelled'',
        TASK_CANCELLED ''C'' ''Parent task cancelled'']
   \<and> gone fanout (cancelTask ''A'' ''user request'' fanout) ''B''
        (runningTask ''B'' [''A''] ''agent-1'' 1)
   \<and> gone fanout (cancelTask ''A'' ''user request'' fanout) ''C''
        (runningTask ''C'' [''A''] ''agent-2'' 2)"
proof -
  have a: "map_of (tasks fanout) ''A'' = Some (runningTask ''A'' [] ''agent-1'' 3)"
    and b: "map_of (tasks fanout) ''B'' = Some (runningTask ''B'' [''A''] ''agent-1'' 1)"
    and c: "map_of (tasks fanout) ''C'' = Some (runningTask ''C'' [''A''] ''agent-2'' 2)"
    and z: "''Z'' \<notin> activeIds fanout"
    and act: "''A'' \<in> activeIds fanout" "''B'' \<in> activeIds fanout" "''C'' \<in> activeIds fanout"
    and deps: "dependentsOf fanout ''A'' = [''B'', ''C'']"
    by (simp_all add: fanout_value activeIds_def dependentsOf_def)
  have ca: "''A'' \<in> cascade fanout {''A''}"
    by (rule cascade.root) (simp_all add: act)
  have cb: "''B'' \<in> cascade fanout {''A''}"
    by (rule cascade.dependent[OF ca]) (simp_all add: deps act)
  have cc: "''C'' \<in> cascade fanout {''A''}"
    by (rule cascade.dependent[OF ca]) (simp_all add: deps act)
  note t = cancelTask_cascade [where t = "''Z''" and s = fanout and reason = "''user request''",
      THEN conjunct1, rule_format, OF z]
  note u = cancelTask_cascade [where t = "''A''" and s = fanout
      and sch = "runningTask ''A'' [] ''agent-1'' 3" and reason = "''user request''",
      THEN conjunct2, THEN conjunct1, rule_format, OF a]
  note ids = u [THEN conjunct2, THEN conjunct2, THEN conjunct2, THEN conjunct2,
      THEN conjunct2, THEN conjunct2, THEN conjunct1]
  note g = u [THEN conjunct2, THEN conjunct2, THEN conjunct2, THEN conjunct2,
      THEN conjunct2, THEN conjunct2, THEN conjunct2, THEN conjunct2, THEN conjunct2,
      THEN conjunct2, THEN conjunct2, rule_format]
  have gb: "gone fanout (cancelTask ''A'' ''user request'' fanout) ''B''
        (runningTask ''B'' [''A''] ''agent-1'' 1)"
    by (rule g) (simp add: cb b)
  have gc: "gone fanout (cancelTask ''A'' ''user request'' fanout) ''C''
        (runningTask ''C'' [''A''] ''agent-2'' 2)"
    by (rule g) (simp add: cc c)
  have ev: "emittedSince fanout (cancelTask ''A'' ''user request'' fanout) =
       [TASK_CANCELLED ''A'' ''user request'',
        TASK_CANCELLED ''B'' ''Parent task cancelled'',
        TASK_CANCELLED ''C'' ''Parent task cancelled'']"
    by (simp add: fanout_value cancelTask.simps cancelDependentTasks.simps cancelActive_def
        clearTaskTimeout_def clearTimeout_def index_remove_def emittedSince_def
        runningTask_def Let_def)
  show ?thesis
    by (intro conjI) (fact a cb cc z t ids ev gb gc)+
qed

section \<open>The bounded history of completed ids\<close>




section \<open>Timers that are superseded\<close>

text \<open>
  C9. The claim is that every transition that supersedes a task's pending timer
  (completion, failure, a new retry, a reset to \<^verbatim>\<open>queued\<close>) first cancels that timer.
  \<^verbatim>\<open>completeTask\<close>, \<^verbatim>\<open>failTask\<close> and \<^verbatim>\<open>cancelTask\<close> clear the timer whose handle the
  task holds. \<^verbatim>\<open>rescheduleAgentTasks\<close> does not: after it the task is \<^verbatim>\<open>queued\<close> with
  \<open>attempts = 0\<close> and its execution timeout is still pending, and when that timer fires,
  \<^verbatim>\<open>failTask\<close> runs on the queued task (\<open>attempts\<close> becomes 1 and a retry is armed). And
  the handle of the retry timer of \<^verbatim>\<open>failTask\<close> is not stored in the task, so that no
  later transition can clear it: after a failure and a completion the retry timer of the
  task, which is no longer active, is still pending.
\<close>

theorem stale_timers_survive:
  "map_of (tasks requeued) ''T'' =
      Some ((runningTask ''T'' [] ''agent-1'' 0)
              \<lparr>task := (task (runningTask ''T'' [] ''agent-1'' 0))\<lparr>status := Queued\<rparr>\<rparr>)
   \<and> timers requeued = [(0, FailTaskCb ''T'' 60000, 60000)]
   \<and> map_of (tasks (fire 0 requeued)) ''T'' =
      Some ((runningTask ''T'' [] ''agent-1'' 0)
              \<lparr>task := (task (runningTask ''T'' [] ''agent-1'' 0))\<lparr>status := Queued\<rparr>,
               attempts := 1, lastAttempt := Some 0\<rparr>)
   \<and> timers (fire 0 requeued) = [(1, StartTaskCb ''T'', 1000)]
   \<and> timers (exec [FailTask ''T'' (Error ''boom''), CompleteTask ''T'' ''done''] assignedOnce)
       = [(1, StartTaskCb ''T'', 1000)]
   \<and> ''T'' \<notin> activeIds
        (exec [FailTask ''T'' (Error ''boom''), CompleteTask ''T'' ''done''] assignedOnce)"
  by (simp add: requeued_def assignedOnce_value runningTask_def rescheduleAgentTasks_def
      requeue_def fire_def activeIds_def run_defs)

section \<open>Health status\<close>

text \<open>
  C10. \<^verbatim>\<open>getHealthStatus\<close> returns \<open>healthy = true\<close> in every state: the flag is a
  constant. The metric \<^verbatim>\<open>completedTasks\<close> is the current size of the completed-id set.
  The metric \<^verbatim>\<open>completed\<close> starts from that size and is incremented for every active
  task whose status is \<^verbatim>\<open>completed\<close>; in every state that a run of the scheduler
  reaches from a new scheduler there is no such task, so it is the current size of the
  completed-id set, too.
\<close>

theorem health_always_healthy:
  "healthy (getHealthStatus s) = True
   \<and> m_completedTasks (metrics (getHealthStatus s)) = length (completedTasks s)
   \<and> m_completed (metrics (getHealthStatus s)) =
       length (completedTasks s)
       + length (filter (\<lambda>sch. status (task sch) = Completed) (map snd (tasks s)))
   \<and> m_completed (metrics (getHealthStatus (exec ops (newScheduler cfg)))) =
       length (completedTasks (exec ops (newScheduler cfg)))"
proof -
  have "statusInv (exec ops (newScheduler cfg))"
    by (rule statusInv_exec[OF statusInv_new])
  then show ?thesis
    by (simp add: completed_metric statusInv_no_completed) (simp add: getHealthStatus_def)
qed

end
